theory Spec2Isabelle
  imports Main "HOL-Library.Sublist"
begin

section \<open>JavaScript values\<close>

text \<open>
  The values that reach \<^verbatim>\<open>lib/sender.js\<close>. Numbers are integers (timestamps, ports and
  intervals), an object is its list of properties, a function is an opaque identity: user
  callbacks and listeners are code the sender does not own, so the model records each of their
  invocations and nothing else.
\<close>

text \<open>
  Modelled from the spec: the \<^verbatim>\<open>EventTime\<close> class of \<^verbatim>\<open>./event-time\<close> (seconds and
  nanoseconds), which is not part of the file verified here, is the constructor
  \<open>JEventTime\<close>; the sender only asks \<^verbatim>\<open>instanceof EventTime\<close> of it.
\<close>

datatype jsval =
    JUndefined
  | JNull
  | JBool bool
  | JNum int
  | JStr string
  | JObj "(string \<times> jsval) list"
  | JDate int
  | JEventTime int int
  | JFun nat

fun typeof :: "jsval \<Rightarrow> string" where
  "typeof JUndefined = ''undefined''"
| "typeof JNull = ''object''"
| "typeof (JBool b) = ''boolean''"
| "typeof (JNum n) = ''number''"
| "typeof (JStr s) = ''string''"
| "typeof (JObj kvs) = ''object''"
| "typeof (JDate ms) = ''object''"
| "typeof (JEventTime e n) = ''object''"
| "typeof (JFun f) = ''function''"

fun truthy :: "jsval \<Rightarrow> bool" where
  "truthy JUndefined = False"
| "truthy JNull = False"
| "truthy (JBool b) = b"
| "truthy (JNum n) = (n \<noteq> 0)"
| "truthy (JStr s) = (s \<noteq> [])"
| "truthy v = True"

text \<open>\<^verbatim>\<open>v.k\<close> on a value that is neither \<^verbatim>\<open>null\<close> nor \<^verbatim>\<open>undefined\<close>.\<close>

fun getProp :: "jsval \<Rightarrow> string \<Rightarrow> jsval" where
  "getProp (JObj kvs) k = (case map_of kvs k of None \<Rightarrow> JUndefined | Some v \<Rightarrow> v)"
| "getProp v k = JUndefined"

text \<open>\<^verbatim>\<open>v.k\<close> on any value: reading a property of \<^verbatim>\<open>null\<close> or \<^verbatim>\<open>undefined\<close> throws.\<close>

fun readProp :: "jsval \<Rightarrow> string \<Rightarrow> jsval option" where
  "readProp JUndefined k = None"
| "readProp JNull k = None"
| "readProp v k = Some (getProp v k)"

text \<open>\<^verbatim>\<open>a || b\<close>\<close>

definition orElse :: "jsval \<Rightarrow> jsval \<Rightarrow> jsval" where
  "orElse a b = (if truthy a then a else b)"

text \<open>\<^verbatim>\<open>args[0]\<close> and \<^verbatim>\<open>args.shift()\<close> on an argument array (\<^verbatim>\<open>undefined\<close> when empty).\<close>

fun arg0 :: "jsval list \<Rightarrow> jsval" where
  "arg0 [] = JUndefined"
| "arg0 (x # xs) = x"

definition shift :: "jsval list \<Rightarrow> jsval \<times> jsval list" where
  "shift xs = (arg0 xs, tl xs)"

fun strOpt :: "jsval \<Rightarrow> string option" where
  "strOpt (JStr s) = Some s"
| "strOpt v = None"

fun fnOpt :: "jsval \<Rightarrow> nat option" where
  "fnOpt (JFun f) = Some f"
| "fnOpt v = None"

text \<open>Truthiness of a value that is a string or \<^verbatim>\<open>undefined\<close>.\<close>

fun present :: "string option \<Rightarrow> bool" where
  "present None = False"
| "present (Some s) = (s \<noteq> [])"

fun strOf :: "string option \<Rightarrow> string" where
  "strOf None = []"
| "strOf (Some s) = s"

fun tagVal :: "string option \<Rightarrow> jsval" where
  "tagVal None = JNull"
| "tagVal (Some s) = JStr s"

section \<open>Errors\<close>

text \<open>
  Modelled from the spec: the error classes of \<^verbatim>\<open>./logger-error\<close> (section 7 of the
  specification), data carriers built with a message and an options object. That module is not
  part of the file verified here. \<open>TransportError\<close> stands for the error object a socket
  hands to its \<^verbatim>\<open>error\<close> handler.
\<close>

datatype fl_error =
    MissingTag string "string option" "string option"
  | DataTypeError string "string option" "string option" jsval
  | ResponseError string jsval jsval
  | ResponseTimeout string
  | TransportError nat

text \<open>
  Exceptions thrown by the JavaScript runtime itself, and what Node's
  \<^verbatim>\<open>EventEmitter.emit\<close> throws when an \<^verbatim>\<open>error\<close> event has no listener (the error
  that was emitted).
\<close>

datatype js_exn = ReferenceError string | TypeError string | UnhandledError "fl_error option"

section \<open>The sender\<close>

text \<open>
  The embedding covers the constructor, \<^verbatim>\<open>emit\<close>, \<^verbatim>\<open>_makePacketItem\<close>,
  \<^verbatim>\<open>_connect\<close>, \<^verbatim>\<open>_flushSendQueue\<close>, \<^verbatim>\<open>_doFlushSendQueue\<close>,
  \<^verbatim>\<open>_handleEvent\<close>, \<^verbatim>\<open>_setupErrorHandler\<close> and the subscription functions
  \<^verbatim>\<open>on\<close> and \<^verbatim>\<open>removeListener\<close>, each closure they create, and the events of the
  Node runtime that run these closures. \<^verbatim>\<open>end\<close>, \<^verbatim>\<open>_close\<close> and the stream adapter
  \<^verbatim>\<open>toStream\<close> are not embedded: the runs considered below do not call them.
\<close>

record item =
  packet :: "jsval list"
  tag :: "string option"
  time :: jsval
  data :: jsval
  options :: jsval
  callback :: "nat option"

text \<open>The closures the sender hands to the runtime.\<close>

datatype kont =
    K_flush          \<comment> \<open>\<^verbatim>\<open>() => { this._flushSendQueue(); }\<close> of \<^verbatim>\<open>emit\<close>\<close>
  | K_reconnected    \<comment> \<open>the logging callback of the reconnect timer\<close>

datatype task =
    T_connect kont   \<comment> \<open>\<^verbatim>\<open>() => { this._connect(callback); }\<close>\<close>
  | T_call kont      \<comment> \<open>\<^verbatim>\<open>process.nextTick(callback)\<close>\<close>
  | T_flushCheck     \<comment> \<open>the closure of \<^verbatim>\<open>_flushSendQueue\<close>\<close>
  | T_doFlush        \<comment> \<open>\<^verbatim>\<open>() => { this._doFlushSendQueue(); }\<close>\<close>

datatype timer =
    TO_ack item      \<comment> \<open>the acknowledgment timeout of an item\<close>
  | TO_reconnect     \<comment> \<open>the reconnect timer of \<^verbatim>\<open>_setupErrorHandler\<close>\<close>

datatype listener =
    UserListener nat
  | Supervisor       \<comment> \<open>the \<^verbatim>\<open>error\<close> listener of \<^verbatim>\<open>_setupErrorHandler\<close>\<close>

datatype action =
    CallbackCalled nat "fl_error option"
  | ListenerCalled nat string "fl_error option"
  | LogError string "fl_error option"
  | LogInfo string

record sock =
  writable :: bool
  destroyed :: bool
  idleTimeout :: jsval
  target :: "jsval list"
  connectListener :: "kont option"
  writeCallbacks :: "item list"
  dataListeners :: "(item \<times> nat) list"

text \<open>
  The fields of \<^verbatim>\<open>FluentSender\<close> (the leading underscore of a private name is dropped), then
  the part of the Node runtime the sender schedules work on (the \<^verbatim>\<open>process.nextTick\<close> queue,
  the timers, the sockets it has let go of), then what an observer sees: the items handed to
  \<^verbatim>\<open>socket.write\<close>, the items pushed on the queue, and the calls of user functions and of
  the logger (\<^verbatim>\<open>internalLogger\<close>, whose calls are recorded and not run), each in order.
\<close>

record sender =
  tag_prefix :: "string option"
  host :: jsval
  port :: jsval
  path :: jsval
  timeout :: jsval
  reconnectInterval :: jsval
  requireAckResponse :: jsval
  ackResponseTimeout :: jsval
  timeResolution :: int
  socket :: "sock option"
  sendQueue :: "item list"
  eventEmitter :: "(string \<times> listener) list"
  flushingSendQueue :: bool
  ticks :: "task list"
  timers :: "(nat \<times> timer \<times> jsval) list"
  timerSeq :: nat
  oldSockets :: "sock list"
  written :: "item list"
  accepted :: "item list"
  trace :: "action list"

text \<open>A call either returns the new state or throws, leaving the state it had reached.\<close>

type_synonym result = "(js_exn \<times> sender) + sender"

definition FluentSender :: "string option \<Rightarrow> jsval \<Rightarrow> sender" where
  "FluentSender tagPrefix options0 =
    (let opts = (if truthy options0 then options0 else JObj []) in
     \<lparr> tag_prefix = tagPrefix,
       host = orElse (getProp opts ''host'') (JStr ''localhost''),
       port = orElse (getProp opts ''port'') (JNum 24224),
       path = getProp opts ''path'',
       timeout = orElse (getProp opts ''timeout'') (JNum 3),
       reconnectInterval = orElse (getProp opts ''reconnectInterval'') (JNum 600000),
       requireAckResponse = getProp opts ''requireAckResponse'',
       ackResponseTimeout = orElse (getProp opts ''ackResponseTimeout'') (JNum 190000),
       timeResolution = (if truthy (getProp opts ''milliseconds'') then 1 else 1000),
       socket = None,
       sendQueue = [],
       eventEmitter = [],
       flushingSendQueue = False,
       ticks = [],
       timers = [],
       timerSeq = 0,
       oldSockets = [],
       written = [],
       accepted = [],
       trace = [] \<rparr>)"

subsection \<open>Event notification\<close>

text \<open>\<^verbatim>\<open>callback && callback(data)\<close>\<close>

fun invoke :: "nat option \<Rightarrow> fl_error option \<Rightarrow> sender \<Rightarrow> sender" where
  "invoke None d s = s"
| "invoke (Some f) d s = s\<lparr>trace := trace s @ [CallbackCalled f d]\<rparr>"

text \<open>
  One listener called by \<^verbatim>\<open>this._eventEmitter.emit(signal, data)\<close>. The supervisor is the
  arrow function of \<^verbatim>\<open>_setupErrorHandler\<close>.
\<close>

fun notify :: "string \<Rightarrow> fl_error option \<Rightarrow> listener \<Rightarrow> sender \<Rightarrow> sender" where
  "notify signal d (UserListener f) s = s\<lparr>trace := trace s @ [ListenerCalled f signal d]\<rparr>"
| "notify signal d Supervisor s =
     s\<lparr>flushingSendQueue := False,
       trace := trace s @ [LogError ''Fluentd error'' d, LogInfo ''Fluentd will reconnect after''],
       timers := timers s @ [(timerSeq s, TO_reconnect, reconnectInterval s)],
       timerSeq := Suc (timerSeq s)\<rparr>"

definition listenersOf :: "string \<Rightarrow> sender \<Rightarrow> listener list" where
  "listenersOf signal s = map snd (filter (\<lambda>e. fst e = signal) (eventEmitter s))"

definition listenerCount :: "string \<Rightarrow> sender \<Rightarrow> nat" where
  "listenerCount signal s = length (listenersOf signal s)"

text \<open>
  \<^verbatim>\<open>this._eventEmitter.emit(signal, data)\<close> of Node's \<^verbatim>\<open>events\<close> module: the listeners
  of the signal are called in the order of their registration; with no listener, an
  \<^verbatim>\<open>error\<close> event is thrown and any other event is ignored.
\<close>

definition emitterEmit :: "string \<Rightarrow> fl_error option \<Rightarrow> sender \<Rightarrow> result" where
  "emitterEmit signal d s =
    (if listenersOf signal s = []
     then (if signal = ''error'' then Inl (UnhandledError d, s) else Inr s)
     else Inr (fold (notify signal d) (listenersOf signal s) s))"

definition handleEvent :: "string \<Rightarrow> fl_error option \<Rightarrow> nat option \<Rightarrow> sender \<Rightarrow> result" where
  "handleEvent signal d cb s =
    (let s1 = invoke cb d s in
     if listenerCount signal s1 > 0
     then emitterEmit signal d s1
     else Inr s1)"

text \<open>
  The state \<^verbatim>\<open>_handleEvent\<close> returns (that it always returns one is proved below): the
  callback has been called, then the listeners of the signal.
\<close>

definition dispatch :: "string \<Rightarrow> fl_error option \<Rightarrow> nat option \<Rightarrow> sender \<Rightarrow> sender" where
  "dispatch signal d cb s = fold (notify signal d) (listenersOf signal s) (invoke cb d s)"

definition setupErrorHandler :: "sender \<Rightarrow> sender" where
  "setupErrorHandler s =
    (if \<not> truthy (reconnectInterval s) then s
     else s\<lparr>eventEmitter := eventEmitter s @ [(''error'', Supervisor)]\<rparr>)"

definition addListener :: "string \<Rightarrow> nat \<Rightarrow> sender \<Rightarrow> sender" where
  "addListener signal f s = s\<lparr>eventEmitter := eventEmitter s @ [(signal, UserListener f)]\<rparr>"

text \<open>
  Node's \<^verbatim>\<open>removeListener\<close> removes the most recently added registration of the
  listener.
\<close>

definition removeLast :: "'a \<Rightarrow> 'a list \<Rightarrow> 'a list" where
  "removeLast x xs = rev (remove1 x (rev xs))"

definition removeListener :: "string \<Rightarrow> nat \<Rightarrow> sender \<Rightarrow> sender" where
  "removeListener signal f s =
     s\<lparr>eventEmitter := removeLast (signal, UserListener f) (eventEmitter s)\<rparr>"

subsection \<open>Packets\<close>

text \<open>
  \<^verbatim>\<open>_makePacketItem(label, data, time)\<close>. \<open>now\<close> is \<^verbatim>\<open>Date.now()\<close> and \<open>rnd\<close> the
  sixteen random bytes in base64. \<^verbatim>\<open>msgpack.encode\<close> is external: the packet is kept as the
  array it is applied to.
\<close>

definition makePacketItem ::
  "sender \<Rightarrow> string option \<Rightarrow> jsval \<Rightarrow> jsval \<Rightarrow> int \<Rightarrow> string \<Rightarrow> js_exn + item" where
  "makePacketItem s label dat tm now rnd =
    (let tg = (if present (tag_prefix s) \<and> present label
               then Some (strOf (tag_prefix s) @ ''.'' @ strOf label)
               else if present (tag_prefix s) then tag_prefix s
               else if present label then label
               else None);
         resolved =
           (if typeof tm \<noteq> ''number'' \<and> \<not> (case tm of JEventTime e n \<Rightarrow> True | _ \<Rightarrow> False)
            then (if truthy tm
                  then (case tm of
                          JDate ms \<Rightarrow> Inr (JNum (ms div timeResolution s))
                        | _ \<Rightarrow> Inl (TypeError ''time.getTime is not a function''))
                  else Inr (JNum (now div timeResolution s)))
            else Inr tm)
     in case resolved of
          Inl e \<Rightarrow> Inl e
        | Inr t \<Rightarrow>
            (let opts = (if truthy (requireAckResponse s) then JObj [(''chunk'', JStr rnd)]
                         else JObj []);
                 pkt = [tagVal tg, t, dat] @ (if truthy (requireAckResponse s) then [opts] else [])
             in Inr \<lparr> packet = pkt, tag = tg, time = t, data = dat, options = opts,
                      callback = None \<rparr>))"

subsection \<open>Connection\<close>

definition nextTick :: "task \<Rightarrow> sender \<Rightarrow> sender" where
  "nextTick t s = s\<lparr>ticks := ticks s @ [t]\<rparr>"

text \<open>\<^verbatim>\<open>this._socket.destroy(); this._socket = null;\<close> with a socket at hand.\<close>

definition dropSocket :: "sock \<Rightarrow> sender \<Rightarrow> sender" where
  "dropSocket sk s =
     s\<lparr>oldSockets := oldSockets s @ [sk\<lparr>destroyed := True, writable := False\<rparr>],
       socket := None\<rparr>"

text \<open>
  \<^verbatim>\<open>_connect(callback)\<close>. A socket is writable from the call of \<^verbatim>\<open>connect\<close> on (Node
  buffers what is written while the connection is being made).
\<close>

definition connect :: "kont \<Rightarrow> sender \<Rightarrow> sender" where
  "connect k s =
    (case socket s of
       None \<Rightarrow>
         s\<lparr>socket := Some \<lparr> writable = True, destroyed = False, idleTimeout = timeout s,
                            target = (if truthy (path s) then [path s] else [port s, host s]),
                            connectListener = Some k, writeCallbacks = [],
                            dataListeners = [] \<rparr>\<rparr>
     | Some sk \<Rightarrow>
         if \<not> writable sk then nextTick (T_connect k) (dropSocket sk s)
         else nextTick (T_call k) s)"

subsection \<open>The flush loop\<close>

definition flushSendQueue :: "sender \<Rightarrow> sender" where
  "flushSendQueue s =
    (if flushingSendQueue s then s
     else nextTick T_flushCheck (s\<lparr>flushingSendQueue := True\<rparr>))"

text \<open>
  \<^verbatim>\<open>_doFlushSendQueue\<close>, up to the call of \<^verbatim>\<open>write\<close>: the item is shifted off the queue
  before \<^verbatim>\<open>this._socket.write\<close> is evaluated.
\<close>

definition doFlushSendQueue :: "sender \<Rightarrow> result" where
  "doFlushSendQueue s =
    (case sendQueue s of
       [] \<Rightarrow> Inr (s\<lparr>flushingSendQueue := False\<rparr>)
     | it # rest \<Rightarrow>
         (let s1 = s\<lparr>sendQueue := rest\<rparr> in
          case socket s1 of
            None \<Rightarrow> Inl (TypeError ''Cannot read property write of null'', s1)
          | Some sk \<Rightarrow>
              Inr (s1\<lparr>socket := Some (sk\<lparr>writeCallbacks := writeCallbacks sk @ [it]\<rparr>),
                     written := written s1 @ [it]\<rparr>)))"

text \<open>
  The closure \<^verbatim>\<open>_flushSendQueue\<close> gives to \<^verbatim>\<open>process.nextTick\<close>. Nothing in the file
  declares \<^verbatim>\<open>waitToWrite\<close>, so evaluating the argument of the inner
  \<^verbatim>\<open>process.nextTick(waitToWrite)\<close> throws.
\<close>

definition flushCheck :: "sender \<Rightarrow> result" where
  "flushCheck s =
    (case socket s of
       None \<Rightarrow> Inr (s\<lparr>flushingSendQueue := False\<rparr>)
     | Some sk \<Rightarrow>
         if writable sk then doFlushSendQueue s
         else Inl (ReferenceError ''waitToWrite is not defined'', s))"

definition clearTimeout :: "nat \<Rightarrow> sender \<Rightarrow> sender" where
  "clearTimeout tid s = s\<lparr>timers := filter (\<lambda>e. fst e \<noteq> tid) (timers s)\<rparr>"

text \<open>
  The callback of \<^verbatim>\<open>write\<close>. With acknowledgment it arms the one-shot \<^verbatim>\<open>data\<close> handler on
  the socket the sender holds at that moment, then the timer; the handler reads the variable
  \<^verbatim>\<open>timeoutId\<close> when it runs, which by then holds that timer.
\<close>

definition writeDone :: "item \<Rightarrow> sender \<Rightarrow> result" where
  "writeDone it s =
    (if truthy (requireAckResponse s) then
       (case socket s of
          None \<Rightarrow> Inl (TypeError ''Cannot read property once of null'', s)
        | Some sk \<Rightarrow>
            Inr (s\<lparr>socket := Some (sk\<lparr>dataListeners := dataListeners sk @ [(it, timerSeq s)]\<rparr>),
                   timers := timers s @ [(timerSeq s, TO_ack it, ackResponseTimeout s)],
                   timerSeq := Suc (timerSeq s)\<rparr>))
     else Inr (nextTick T_doFlush (invoke (callback it) None s)))"

text \<open>
  The one-shot \<^verbatim>\<open>data\<close> handler; \<open>resp\<close> is the decoded response. The chunk identifier is
  a string or \<^verbatim>\<open>undefined\<close>, on which \<^verbatim>\<open>!==\<close> is inequality of values.
\<close>

definition onData :: "item \<Rightarrow> nat \<Rightarrow> jsval \<Rightarrow> sender \<Rightarrow> result" where
  "onData it tid resp s =
    (let s1 = clearTimeout tid s in
     case readProp resp ''ack'' of
       None \<Rightarrow> Inl (TypeError ''Cannot read property ack'', s1)
     | Some ack \<Rightarrow>
         (case (if ack \<noteq> getProp (options it) ''chunk''
                then handleEvent ''error''
                       (Some (ResponseError
                                ''ack in response and chunk id in sent data are different''
                                ack (getProp (options it) ''chunk'')))
                       (callback it) s1
                else Inr s1) of
            Inl x \<Rightarrow> Inl x
          | Inr s2 \<Rightarrow> Inr (nextTick T_doFlush (invoke (callback it) None s2))))"

definition onAckTimeout :: "item \<Rightarrow> sender \<Rightarrow> result" where
  "onAckTimeout it s =
     handleEvent ''error'' (Some (ResponseTimeout ''ack response timeout'')) (callback it) s"

subsection \<open>Submitting an event\<close>

text \<open>
  The argument handling of \<^verbatim>\<open>emit([label], data, [timestamp], [callback])\<close>: a leading
  string is the label, the next argument is the data, the next one is the timestamp unless it
  is a function, and a function after that is the callback.
\<close>

record emit_args =
  a_label :: "string option"
  a_data :: jsval
  a_timestamp :: jsval
  a_callback :: "nat option"

definition parseArgs :: "jsval list \<Rightarrow> emit_args" where
  "parseArgs args =
    (let hasLabel = (typeof (arg0 args) = ''string'');
         label = (if hasLabel then strOpt (fst (shift args)) else None);
         args1 = (if hasLabel then snd (shift args) else args);
         dat = fst (shift args1);
         args2 = snd (shift args1);
         hasTime = (typeof (arg0 args2) \<noteq> ''function'');
         timestamp = (if hasTime then fst (shift args2) else JUndefined);
         args3 = (if hasTime then snd (shift args2) else args2);
         cb = (if typeof (arg0 args3) = ''function'' then fnOpt (fst (shift args3)) else None)
     in \<lparr> a_label = label, a_data = dat, a_timestamp = timestamp, a_callback = cb \<rparr>)"

definition emit :: "jsval list \<Rightarrow> int \<Rightarrow> string \<Rightarrow> sender \<Rightarrow> result" where
  "emit args now rnd s =
    (let a = parseArgs args in
     case makePacketItem s (a_label a) (a_data a) (a_timestamp a) now rnd of
       Inl e \<Rightarrow> Inl (e, s)
     | Inr it \<Rightarrow>
         if tag it = None then
           handleEvent ''error''
             (Some (MissingTag ''tag is missing'' (tag_prefix s) (a_label a)))
             (a_callback a) s
         else if typeof (data it) \<noteq> ''object'' then
           handleEvent ''error''
             (Some (DataTypeError ''data must be an object'' (tag_prefix s) (a_label a)
                      (data it)))
             (a_callback a) s
         else
           Inr (connect K_flush
                  (s\<lparr>sendQueue := sendQueue s @ [it\<lparr>callback := a_callback a\<rparr>],
                     accepted := accepted s @ [it\<lparr>callback := a_callback a\<rparr>]\<rparr>)))"

subsection \<open>The runtime: ticks, sockets and timers\<close>

fun runKont :: "kont \<Rightarrow> sender \<Rightarrow> sender" where
  "runKont K_flush s = flushSendQueue s"
| "runKont K_reconnected s = s\<lparr>trace := trace s @ [LogInfo ''Fluentd reconnection finished!!'']\<rparr>"

fun runTask :: "task \<Rightarrow> sender \<Rightarrow> result" where
  "runTask (T_connect k) s = Inr (connect k s)"
| "runTask (T_call k) s = Inr (runKont k s)"
| "runTask T_flushCheck s = flushCheck s"
| "runTask T_doFlush s = doFlushSendQueue s"

text \<open>The \<^verbatim>\<open>error\<close> and \<^verbatim>\<open>connect\<close> handlers \<^verbatim>\<open>_connect\<close> puts on every socket.\<close>

definition onSocketError :: "nat \<Rightarrow> sender \<Rightarrow> result" where
  "onSocketError e s =
    (case socket s of
       None \<Rightarrow> Inr s
     | Some sk \<Rightarrow> handleEvent ''error'' (Some (TransportError e)) None (dropSocket sk s))"

definition onSocketConnect :: "sender \<Rightarrow> result" where
  "onSocketConnect s = handleEvent ''connect'' None None s"

text \<open>The timer closure of \<^verbatim>\<open>_setupErrorHandler\<close>.\<close>

definition onReconnectTimer :: "sender \<Rightarrow> sender" where
  "onReconnectTimer s =
     connect K_reconnected (s\<lparr>trace := trace s @ [LogInfo ''Fluentd is reconnecting...'']\<rparr>)"

text \<open>
  A socket the runtime can raise an event on: the one the sender holds, or one it has destroyed
  and let go of (whose pending callbacks still close over the sender).
\<close>

datatype sref = Cur | Old nat

fun getSock :: "sref \<Rightarrow> sender \<Rightarrow> sock option" where
  "getSock Cur s = socket s"
| "getSock (Old j) s = (if j < length (oldSockets s) then Some (oldSockets s ! j) else None)"

fun putSock :: "sref \<Rightarrow> sock \<Rightarrow> sender \<Rightarrow> sender" where
  "putSock Cur sk s = s\<lparr>socket := Some sk\<rparr>"
| "putSock (Old j) sk s = s\<lparr>oldSockets := (oldSockets s)[j := sk]\<rparr>"

text \<open>
  What the program and its environment can do to a sender: call \<^verbatim>\<open>emit\<close>, subscribe and
  unsubscribe, run the next \<^verbatim>\<open>process.nextTick\<close> callback, raise \<^verbatim>\<open>connect\<close>,
  \<^verbatim>\<open>error\<close> or \<^verbatim>\<open>data\<close> on a socket, complete its oldest pending write, change its
  writability, fire a timer. The environment is not constrained any further, so every run of
  the program under Node is among the runs below.
\<close>

datatype event =
    Emit "jsval list" int string
  | On string nat
  | RemoveListener string nat
  | Tick
  | SockConnect sref
  | SockError sref nat
  | SockData sref jsval
  | SockWriteDone sref
  | SockWritable sref bool
  | TimerFire nat

text \<open>A one-shot listener removes itself, then runs.\<close>

definition unlisten :: "sref \<Rightarrow> item \<times> nat \<Rightarrow> sender \<Rightarrow> sender" where
  "unlisten r h s =
    (case getSock r s of
       None \<Rightarrow> s
     | Some sk \<Rightarrow> putSock r (sk\<lparr>dataListeners := remove1 h (dataListeners sk)\<rparr>) s)"

fun fireData :: "sref \<Rightarrow> jsval \<Rightarrow> (item \<times> nat) list \<Rightarrow> sender \<Rightarrow> result" where
  "fireData r resp [] s = Inr s"
| "fireData r resp (h # hs) s =
     (case onData (fst h) (snd h) resp (unlisten r h s) of
        Inl x \<Rightarrow> Inl x
      | Inr s' \<Rightarrow> fireData r resp hs s')"

fun fire :: "event \<Rightarrow> sender \<Rightarrow> result" where
  "fire (Emit args now rnd) s = emit args now rnd s"
| "fire (On signal f) s = Inr (addListener signal f s)"
| "fire (RemoveListener signal f) s = Inr (removeListener signal f s)"
| "fire Tick s =
     (case ticks s of
        [] \<Rightarrow> Inr s
      | t # ts \<Rightarrow> runTask t (s\<lparr>ticks := ts\<rparr>))"
| "fire (SockConnect r) s =
     (case getSock r s of
        None \<Rightarrow> Inr s
      | Some sk \<Rightarrow>
          (case onSocketConnect s of
             Inl x \<Rightarrow> Inl x
           | Inr s1 \<Rightarrow>
               (case connectListener sk of
                  None \<Rightarrow> Inr s1
                | Some k \<Rightarrow> Inr (runKont k (putSock r (sk\<lparr>connectListener := None\<rparr>) s1)))))"
| "fire (SockError r e) s =
     (case getSock r s of
        None \<Rightarrow> Inr s
      | Some sk \<Rightarrow> onSocketError e s)"
| "fire (SockData r resp) s =
     (case getSock r s of
        None \<Rightarrow> Inr s
      | Some sk \<Rightarrow> fireData r resp (dataListeners sk) s)"
| "fire (SockWriteDone r) s =
     (case getSock r s of
        None \<Rightarrow> Inr s
      | Some sk \<Rightarrow>
          (case writeCallbacks sk of
             [] \<Rightarrow> Inr s
           | it # rest \<Rightarrow> writeDone it (putSock r (sk\<lparr>writeCallbacks := rest\<rparr>) s)))"
| "fire (SockWritable r b) s =
     (case getSock r s of
        None \<Rightarrow> Inr s
      | Some sk \<Rightarrow> Inr (putSock r (sk\<lparr>writable := b\<rparr>) s))"
| "fire (TimerFire t) s =
     (case map_of (timers s) t of
        None \<Rightarrow> Inr s
      | Some (TO_ack it, d) \<Rightarrow> onAckTimeout it (clearTimeout t s)
      | Some (TO_reconnect, d) \<Rightarrow> Inr (onReconnectTimer (clearTimeout t s)))"

text \<open>A run stops at the first exception: nothing in the file catches one.\<close>

fun run :: "event list \<Rightarrow> sender \<Rightarrow> result" where
  "run [] s = Inr s"
| "run (e # es) s =
     (case fire e s of
        Inl x \<Rightarrow> Inl x
      | Inr s' \<Rightarrow> run es s')"

fun stateOf :: "result \<Rightarrow> sender" where
  "stateOf (Inl x) = snd x"
| "stateOf (Inr s) = s"

subsection \<open>Observations\<close>

text \<open>What a trace shows: the call of a callback, and the calls of the user's listeners.\<close>

definition callbackCall :: "nat option \<Rightarrow> fl_error option \<Rightarrow> action list" where
  "callbackCall cb d = (case cb of None \<Rightarrow> [] | Some f \<Rightarrow> [CallbackCalled f d])"

fun listenerCalls :: "string \<Rightarrow> fl_error option \<Rightarrow> listener list \<Rightarrow> action list" where
  "listenerCalls signal d [] = []"
| "listenerCalls signal d (UserListener f # ls) =
     ListenerCalled f signal d # listenerCalls signal d ls"
| "listenerCalls signal d (Supervisor # ls) = listenerCalls signal d ls"

fun isListenerCall :: "action \<Rightarrow> bool" where
  "isListenerCall (ListenerCalled f signal d) = True"
| "isListenerCall a = False"

subsection \<open>The state of the flush loop\<close>

text \<open>
  An item is in flight from the call of \<^verbatim>\<open>write\<close> until the flush loop moves on: while the
  callback of its write is pending, and then, with acknowledgment, while its one-shot
  \<^verbatim>\<open>data\<close> handler is registered. The continuation of the loop is held either by an item in
  flight or by a scheduled \<^verbatim>\<open>process.nextTick\<close> closure of the loop.
\<close>

definition pending :: "sock \<Rightarrow> nat" where
  "pending sk = length (writeCallbacks sk) + length (dataListeners sk)"

definition allSockets :: "sender \<Rightarrow> sock list" where
  "allSockets s = (case socket s of None \<Rightarrow> [] | Some sk \<Rightarrow> [sk]) @ oldSockets s"

definition inFlight :: "sender \<Rightarrow> nat" where
  "inFlight s = sum_list (map pending (allSockets s))"

definition flushTasks :: "sender \<Rightarrow> nat" where
  "flushTasks s = length (filter (\<lambda>t. t = T_flushCheck \<or> t = T_doFlush) (ticks s))"

definition listening :: "sender \<Rightarrow> (item \<times> nat) set" where
  "listening s = set (concat (map dataListeners (allSockets s)))"

definition ackTimers :: "sender \<Rightarrow> (item \<times> nat) list" where
  "ackTimers s =
     concat (map (\<lambda>e. case fst (snd e) of TO_ack it \<Rightarrow> [(it, fst e)] | TO_reconnect \<Rightarrow> [])
               (timers s))"

text \<open>
  The invariant of a sender that nobody has called \<^verbatim>\<open>_setupErrorHandler\<close> on: at most one
  continuation of the flush loop exists, and none when the in-progress flag is clear; the items
  pushed so far are the items written followed by the queue; every pending acknowledgment timer
  belongs to a registered \<^verbatim>\<open>data\<close> handler.
\<close>

definition loopInv :: "sender \<Rightarrow> bool" where
  "loopInv s =
    (inFlight s + flushTasks s \<le> 1 \<and>
     (flushingSendQueue s \<or> inFlight s + flushTasks s = 0) \<and>
     accepted s = written s @ sendQueue s \<and>
     Supervisor \<notin> snd ` set (eventEmitter s) \<and>
     set (ackTimers s) \<subseteq> listening s)"

definition loopIdle :: "sender \<Rightarrow> bool" where
  "loopIdle s = (loopInv s \<and> inFlight s + flushTasks s = 0 \<and> flushingSendQueue s)"

text \<open>What a run guarantees at its end, whether it returned or threw.\<close>

fun resultInv :: "result \<Rightarrow> bool" where
  "resultInv (Inr s) = loopInv s"
| "resultInv (Inl x) = (prefix (written (snd x)) (accepted (snd x)) \<and> inFlight (snd x) \<le> 1)"


subsection \<open>A cooperative environment\<close>





subsection \<open>A stalled flush loop\<close>

definition writesPending :: "sender \<Rightarrow> nat" where
  "writesPending s = sum_list (map (\<lambda>sk. length (writeCallbacks sk)) (allSockets s))"

text \<open>
  The in-progress flag is set, yet no closure of the flush loop is scheduled and no write is
  pending: only a \<^verbatim>\<open>data\<close> event could make the loop go on.
\<close>

definition stalled :: "sender \<Rightarrow> bool" where
  "stalled s =
    (flushingSendQueue s \<and> flushTasks s = 0 \<and> writesPending s = 0 \<and>
     Supervisor \<notin> snd ` set (eventEmitter s))"

fun isData :: "event \<Rightarrow> bool" where
  "isData (SockData r resp) = True"
| "isData e = False"

subsection \<open>Submissions made before any connection exists\<close>




section \<open>Properties\<close>

lemma invoke_trace: "trace (invoke cb d s) = trace s @ callbackCall cb d"
  by (cases cb) (simp_all add: callbackCall_def)

lemma invoke_fields:
  "sendQueue (invoke cb d s) = sendQueue s" "socket (invoke cb d s) = socket s"
  "oldSockets (invoke cb d s) = oldSockets s" "ticks (invoke cb d s) = ticks s"
  "written (invoke cb d s) = written s" "accepted (invoke cb d s) = accepted s"
  "eventEmitter (invoke cb d s) = eventEmitter s" "timers (invoke cb d s) = timers s"
  "timerSeq (invoke cb d s) = timerSeq s" "flushingSendQueue (invoke cb d s) = flushingSendQueue s"
  "requireAckResponse (invoke cb d s) = requireAckResponse s"
  by (cases cb; simp)+

lemma notify_fields:
  "sendQueue (notify signal d l s) = sendQueue s" "socket (notify signal d l s) = socket s"
  "oldSockets (notify signal d l s) = oldSockets s" "ticks (notify signal d l s) = ticks s"
  "written (notify signal d l s) = written s" "accepted (notify signal d l s) = accepted s"
  "eventEmitter (notify signal d l s) = eventEmitter s"
  "requireAckResponse (notify signal d l s) = requireAckResponse s"
  by (cases l; simp)+

lemma fold_notify_fields:
  "sendQueue (fold (notify signal d) ls s) = sendQueue s \<and>
   socket (fold (notify signal d) ls s) = socket s \<and>
   oldSockets (fold (notify signal d) ls s) = oldSockets s \<and>
   ticks (fold (notify signal d) ls s) = ticks s \<and>
   written (fold (notify signal d) ls s) = written s \<and>
   accepted (fold (notify signal d) ls s) = accepted s \<and>
   eventEmitter (fold (notify signal d) ls s) = eventEmitter s \<and>
   requireAckResponse (fold (notify signal d) ls s) = requireAckResponse s"
  by (induction ls arbitrary: s) (simp_all add: notify_fields)

lemma fold_notify_trace:
  "\<exists>rest. trace (fold (notify signal d) ls s) = trace s @ rest \<and>
          filter isListenerCall rest = listenerCalls signal d ls"
proof (induction ls arbitrary: s)
  case Nil
  show ?case by simp
next
  case (Cons l ls)
  obtain rest where r: "trace (fold (notify signal d) ls (notify signal d l s))
      = trace (notify signal d l s) @ rest" "filter isListenerCall rest = listenerCalls signal d ls"
    using Cons.IH by blast
  show ?case
  proof (cases l)
    case (UserListener f)
    with r show ?thesis by simp
  next
    case Supervisor
    with r show ?thesis by simp
  qed
qed

lemma listenersOf_invoke: "listenersOf signal (invoke cb d s) = listenersOf signal s"
  by (simp add: listenersOf_def invoke_fields)

lemma dispatch_fields:
  "sendQueue (dispatch signal d cb s) = sendQueue s"
  "socket (dispatch signal d cb s) = socket s"
  "oldSockets (dispatch signal d cb s) = oldSockets s"
  "ticks (dispatch signal d cb s) = ticks s"
  "written (dispatch signal d cb s) = written s"
  "accepted (dispatch signal d cb s) = accepted s"
  "eventEmitter (dispatch signal d cb s) = eventEmitter s"
  "requireAckResponse (dispatch signal d cb s) = requireAckResponse s"
  by (simp_all add: dispatch_def fold_notify_fields invoke_fields)

lemma dispatch_trace:
  "\<exists>rest. trace (dispatch signal d cb s) = trace s @ callbackCall cb d @ rest \<and>
          filter isListenerCall rest = listenerCalls signal d (listenersOf signal s)"
proof -
  obtain rest where "trace (fold (notify signal d) (listenersOf signal s) (invoke cb d s))
      = trace (invoke cb d s) @ rest"
    "filter isListenerCall rest = listenerCalls signal d (listenersOf signal s)"
    using fold_notify_trace by blast
  then show ?thesis by (simp add: dispatch_def invoke_trace)
qed

lemma dispatch_unheard:
  "listenerCount signal s = 0 \<Longrightarrow> dispatch signal d cb s = invoke cb d s"
  by (simp add: dispatch_def listenerCount_def)

lemma handleEvent_returns [simp]:
  "handleEvent signal d cb s = Inr (dispatch signal d cb s)"
  by (simp add: handleEvent_def emitterEmit_def dispatch_def Let_def listenerCount_def
      listenersOf_invoke)

lemma emitterEmit_heard:
  "0 < listenerCount signal s \<Longrightarrow>
   emitterEmit signal d (invoke cb d s) = Inr (dispatch signal d cb s)"
  by (simp add: emitterEmit_def dispatch_def listenerCount_def listenersOf_invoke)

lemma emitterEmit_unheard:
  "listenerCount ''error'' s = 0 \<Longrightarrow> emitterEmit ''error'' d s = Inl (UnhandledError d, s)"
  by (simp add: emitterEmit_def listenerCount_def)

lemma onData_eq:
  "onData it tid resp s =
    (case readProp resp ''ack'' of
       None \<Rightarrow> Inl (TypeError ''Cannot read property ack'', clearTimeout tid s)
     | Some ack \<Rightarrow>
         Inr (nextTick T_doFlush (invoke (callback it) None
           (if ack \<noteq> getProp (options it) ''chunk''
            then dispatch ''error''
                   (Some (ResponseError
                            ''ack in response and chunk id in sent data are different''
                            ack (getProp (options it) ''chunk'')))
                   (callback it) (clearTimeout tid s)
            else clearTimeout tid s))))"
  by (simp add: onData_def Let_def split: option.splits)

lemma onAckTimeout_eq [simp]:
  "onAckTimeout it s =
     Inr (dispatch ''error'' (Some (ResponseTimeout ''ack response timeout'')) (callback it) s)"
  by (simp add: onAckTimeout_def)

lemma onSocketError_eq [simp]:
  "onSocketError e s =
     Inr (case socket s of
            None \<Rightarrow> s
          | Some sk \<Rightarrow> dispatch ''error'' (Some (TransportError e)) None (dropSocket sk s))"
  by (simp add: onSocketError_def split: option.splits)

lemma onSocketConnect_eq [simp]:
  "onSocketConnect s = Inr (dispatch ''connect'' None None s)"
  by (simp add: onSocketConnect_def)

lemma set_removeLast: "set (removeLast x xs) \<subseteq> set xs"
  using set_remove1_subset [of x "rev xs"] by (simp add: removeLast_def)

text \<open>
  Claim C9. \<^verbatim>\<open>_handleEvent(signal, data, callback)\<close> always returns a state: it does not
  throw, whatever the signal, the callback and the listeners. What it adds to the trace starts
  with the call of the callback, when one was given, with \<open>data\<close> (the error, in the error
  cases) as its argument; the calls of the listeners follow, one call with \<open>data\<close> for each
  listener the user registered for the signal, in their order. When the signal has a listener,
  the state returned is the one \<^verbatim>\<open>this._eventEmitter.emit\<close> returns after the callback
  has run. When it has none, \<^verbatim>\<open>emit\<close> is not called: the state is the one the callback
  left, untouched when there is no callback either, whereas emitting the \<^verbatim>\<open>error\<close>
  event in that state would throw.
\<close>

theorem handleEvent_dispatch:
  "\<exists>s' rest. handleEvent signal d cb s = Inr s' \<and>
      trace s' = trace s @ callbackCall cb d @ rest \<and>
      filter isListenerCall rest = listenerCalls signal d (listenersOf signal s) \<and>
      (0 < listenerCount signal s \<longrightarrow> emitterEmit signal d (invoke cb d s) = Inr s') \<and>
      (listenerCount signal s = 0 \<longrightarrow> s' = invoke cb d s \<and> rest = []) \<and>
      (listenerCount signal s = 0 \<and> signal = ''error'' \<longrightarrow>
         emitterEmit signal d (invoke cb d s) = Inl (UnhandledError d, invoke cb d s)) \<and>
      (listenerCount signal s = 0 \<and> cb = None \<longrightarrow> s' = s)"
proof -
  obtain rest where r: "trace (dispatch signal d cb s) = trace s @ callbackCall cb d @ rest"
    "filter isListenerCall rest = listenerCalls signal d (listenersOf signal s)"
    using dispatch_trace by blast
  have c: "listenerCount signal (invoke cb d s) = listenerCount signal s"
    by (simp add: listenerCount_def listenersOf_invoke)
  have u: "rest = []" if "listenerCount signal s = 0"
    using r(1) dispatch_unheard [OF that, of d cb] by (simp add: invoke_trace)
  show ?thesis
    apply (rule exI [of _ "dispatch signal d cb s"])
    apply (rule exI [of _ rest])
    using r u emitterEmit_heard [of signal s d cb] dispatch_unheard [of signal s d cb]
      emitterEmit_unheard [of "invoke cb d s" d] c
    by auto
qed

theorem handleEvent_dispatch_witness:
  "listenerCount ''error'' (addListener ''error'' 5 (FluentSender None JUndefined)) = 1 \<and>
   (\<exists>s'. handleEvent ''error'' (Some (ResponseTimeout ''ack response timeout'')) (Some 7)
            (addListener ''error'' 5 (FluentSender None JUndefined)) = Inr s' \<and>
          emitterEmit ''error'' (Some (ResponseTimeout ''ack response timeout''))
            (invoke (Some 7) (Some (ResponseTimeout ''ack response timeout''))
               (addListener ''error'' 5 (FluentSender None JUndefined))) = Inr s' \<and>
          trace s' = [CallbackCalled 7 (Some (ResponseTimeout ''ack response timeout'')),
                      ListenerCalled 5 ''error'' (Some (ResponseTimeout ''ack response timeout''))]) \<and>
   listenerCount ''error'' (FluentSender None JUndefined) = 0 \<and>
   handleEvent ''error'' (Some (ResponseTimeout ''ack response timeout'')) None
     (FluentSender None JUndefined) = Inr (FluentSender None JUndefined) \<and>
   emitterEmit ''error'' (Some (ResponseTimeout ''ack response timeout''))
     (FluentSender None JUndefined) =
     Inl (UnhandledError (Some (ResponseTimeout ''ack response timeout'')),
          FluentSender None JUndefined)"
proof -
  let ?e = "Some (ResponseTimeout ''ack response timeout'')"
  let ?A = "addListener ''error'' 5 (FluentSender None JUndefined)"
  let ?B = "FluentSender None JUndefined"
  have a: "listenerCount ''error'' ?A = 1" "listenerCount ''error'' ?B = 0"
    by (simp_all add: listenerCount_def listenersOf_def addListener_def FluentSender_def)
  have l: "listenerCalls ''error'' ?e (listenersOf ''error'' ?A) = [ListenerCalled 5 ''error'' ?e]"
    "trace ?A = []"
    by (simp_all add: listenersOf_def addListener_def FluentSender_def)
  from handleEvent_dispatch [of "''error''" ?e "Some 7" ?A] a(1) l
  obtain s' rest where s': "handleEvent ''error'' ?e (Some 7) ?A = Inr s'"
    "trace s' = callbackCall (Some 7) ?e @ rest"
    "filter isListenerCall rest = [ListenerCalled 5 ''error'' ?e]"
    "emitterEmit ''error'' ?e (invoke (Some 7) ?e ?A) = Inr s'"
    by auto
  have "trace s' = [CallbackCalled 7 ?e, ListenerCalled 5 ''error'' ?e]"
    using s'(1) by (auto simp: dispatch_def listenersOf_def addListener_def FluentSender_def)
  with s' have x: "\<exists>s'. handleEvent ''error'' ?e (Some 7) ?A = Inr s' \<and>
      emitterEmit ''error'' ?e (invoke (Some 7) ?e ?A) = Inr s' \<and>
      trace s' = [CallbackCalled 7 ?e, ListenerCalled 5 ''error'' ?e]"
    by blast
  from handleEvent_dispatch [of "''error''" ?e None ?B] a(2)
  have y: "handleEvent ''error'' ?e None ?B = Inr ?B"
    "emitterEmit ''error'' ?e ?B = Inl (UnhandledError ?e, ?B)"
    by auto
  from a x y show ?thesis by (intro conjI)
qed

lemma makePacketItem_tag:
  "makePacketItem s label dat tm now rnd = Inr it \<Longrightarrow>
   tag it = (if present (tag_prefix s) \<and> present label
               then Some (strOf (tag_prefix s) @ ''.'' @ strOf label)
               else if present (tag_prefix s) then tag_prefix s
               else if present label then label
               else None) \<and> data it = dat \<and> callback it = None"
  by (auto simp: makePacketItem_def Let_def split: sum.splits if_splits)





lemma fold_notify_quiet:
  "Supervisor \<notin> set ls \<Longrightarrow>
   timers (fold (notify signal d) ls s) = timers s \<and>
   timerSeq (fold (notify signal d) ls s) = timerSeq s \<and>
   flushingSendQueue (fold (notify signal d) ls s) = flushingSendQueue s"
proof (induction ls arbitrary: s)
  case Nil
  show ?case by simp
next
  case (Cons l ls)
  then show ?case by (cases l) simp_all
qed

lemma dispatch_quiet:
  "Supervisor \<notin> set (listenersOf signal s) \<Longrightarrow>
   timers (dispatch signal d cb s) = timers s \<and>
   timerSeq (dispatch signal d cb s) = timerSeq s \<and>
   flushingSendQueue (dispatch signal d cb s) = flushingSendQueue s"
  by (simp add: dispatch_def Let_def listenersOf_invoke fold_notify_quiet invoke_fields)

text \<open>
  Claim C5. When the item built from the arguments has no tag or has data whose
  \<^verbatim>\<open>typeof\<close> is not \<^verbatim>\<open>'object'\<close>, \<^verbatim>\<open>emit\<close> itself returns the state that
  \<^verbatim>\<open>_handleEvent\<close> returns for the \<^verbatim>\<open>MissingTag\<close> or \<^verbatim>\<open>DataTypeError\<close>, and in that state the send
  queue, the socket, the destroyed sockets, the pending ticks and the written items are what
  they were: nothing is enqueued and \<^verbatim>\<open>_connect\<close> is not called. Without the supervisor
  among the \<^verbatim>\<open>error\<close> listeners no timer is set either.
\<close>

theorem validation_before_enqueue:
  assumes "makePacketItem s (a_label (parseArgs args)) (a_data (parseArgs args))
             (a_timestamp (parseArgs args)) now rnd = Inr it"
    and "tag it = None \<or> typeof (data it) \<noteq> ''object''"
  shows "\<exists>err s'. emit args now rnd s = Inr s' \<and>
           handleEvent ''error'' (Some err) (a_callback (parseArgs args)) s = Inr s' \<and>
           s' = dispatch ''error'' (Some err) (a_callback (parseArgs args)) s \<and>
           (err = MissingTag ''tag is missing'' (tag_prefix s) (a_label (parseArgs args)) \<or>
            err = DataTypeError ''data must be an object'' (tag_prefix s)
                    (a_label (parseArgs args)) (a_data (parseArgs args))) \<and>
           sendQueue s' = sendQueue s \<and> accepted s' = accepted s \<and>
           socket s' = socket s \<and> oldSockets s' = oldSockets s \<and>
           ticks s' = ticks s \<and> written s' = written s \<and>
           (Supervisor \<notin> set (listenersOf ''error'' s) \<longrightarrow> timers s' = timers s)"
proof -
  let ?cb = "a_callback (parseArgs args)"
  let ?A = "MissingTag ''tag is missing'' (tag_prefix s) (a_label (parseArgs args))"
  let ?B = "DataTypeError ''data must be an object'' (tag_prefix s)
              (a_label (parseArgs args)) (a_data (parseArgs args))"
  have d: "data it = a_data (parseArgs args)"
    using assms(1) makePacketItem_tag by blast
  have core: "?thesis"
    if e: "emit args now rnd s = Inr (dispatch ''error'' (Some err) ?cb s)"
      and k: "err = ?A \<or> err = ?B" for err
    apply (rule exI [of _ err])
    apply (rule exI [of _ "dispatch ''error'' (Some err) ?cb s"])
    using e k by (simp add: dispatch_fields dispatch_quiet)
  show ?thesis
  proof (cases "tag it = None")
    case True
    with assms(1) have "emit args now rnd s = Inr (dispatch ''error'' (Some ?A) ?cb s)"
      by (simp add: emit_def Let_def)
    then show ?thesis by (rule core) simp
  next
    case False
    with assms d have "emit args now rnd s = Inr (dispatch ''error'' (Some ?B) ?cb s)"
      by (auto simp: emit_def Let_def)
    then show ?thesis by (rule core) simp
  qed
qed

theorem validation_before_enqueue_witness:
  "(\<exists>it. makePacketItem (FluentSender None JUndefined) (a_label (parseArgs [JStr ''web'', JNum 3, JFun 1]))
       (a_data (parseArgs [JStr ''web'', JNum 3, JFun 1]))
       (a_timestamp (parseArgs [JStr ''web'', JNum 3, JFun 1])) 5000 ''r'' = Inr it \<and>
       typeof (data it) \<noteq> ''object'') \<and>
   (\<exists>s'. emit [JStr ''web'', JNum 3, JFun 1] 5000 ''r'' (FluentSender None JUndefined) = Inr s' \<and>
      sendQueue s' = [] \<and> socket s' = None \<and> ticks s' = [] \<and>
      trace s' = [CallbackCalled 1 (Some (DataTypeError ''data must be an object'' None (Some ''web'') (JNum 3)))])"
proof -
  let ?s = "FluentSender None JUndefined"
  let ?args = "[JStr ''web'', JNum 3, JFun 1]"
  let ?it = "\<lparr> packet = [JStr ''web'', JNum 5, JNum 3], tag = Some ''web'', time = JNum 5,
               data = JNum 3, options = JObj [], callback = None \<rparr>"
  have m: "makePacketItem ?s (a_label (parseArgs ?args)) (a_data (parseArgs ?args))
             (a_timestamp (parseArgs ?args)) 5000 ''r'' = Inr ?it"
    by (simp add: makePacketItem_def parseArgs_def shift_def FluentSender_def Let_def orElse_def)
  have t: "tag ?it = None \<or> typeof (data ?it) \<noteq> ''object''" by simp
  show ?thesis
    using validation_before_enqueue [OF m t] m
    by (simp add: emit_def parseArgs_def shift_def FluentSender_def Let_def orElse_def
        dispatch_def listenerCount_def listenersOf_def)
qed

lemma typeof_object:
  "(typeof v = ''object'') =
     (case v of JNull \<Rightarrow> True | JObj kvs \<Rightarrow> True | JDate ms \<Rightarrow> True
      | JEventTime e n \<Rightarrow> True | _ \<Rightarrow> False)"
  by (cases v) simp_all

lemma emit_rejects_non_object:
  assumes "makePacketItem s (a_label (parseArgs args)) (a_data (parseArgs args))
             (a_timestamp (parseArgs args)) now rnd = Inr it"
    and "tag it \<noteq> None" and "typeof (a_data (parseArgs args)) \<noteq> ''object''"
  shows "emit args now rnd s =
           Inr (dispatch ''error''
                  (Some (DataTypeError ''data must be an object'' (tag_prefix s)
                           (a_label (parseArgs args)) (a_data (parseArgs args))))
                  (a_callback (parseArgs args)) s)"
proof -
  have "data it = a_data (parseArgs args)"
    using assms(1) makePacketItem_tag by blast
  with assms show ?thesis by (auto simp: emit_def Let_def)
qed

text \<open>
  Claim C3 (evaluation at the input the code mishandles). \<^verbatim>\<open>typeof null\<close> is
  \<^verbatim>\<open>'object'\<close>, so \<^verbatim>\<open>emit('web', null, callback)\<close> passes the check of the data: the
  item is pushed on the queue with data \<^verbatim>\<open>null\<close>, a socket is created, and neither the
  callback nor the \<^verbatim>\<open>error\<close> event receives a \<^verbatim>\<open>DataTypeError\<close>.
\<close>

theorem null_data_is_enqueued:
  "(case emit [JStr ''web'', JNull, JFun 1] 5000 ''r'' (FluentSender None JUndefined) of
      Inl x \<Rightarrow> False
    | Inr s' \<Rightarrow> map data (sendQueue s') = [JNull] \<and> map callback (sendQueue s') = [Some 1] \<and>
               trace s' = [] \<and> socket s' \<noteq> None)"
  by (simp add: emit_def parseArgs_def shift_def makePacketItem_def FluentSender_def Let_def
      orElse_def connect_def)

lemma flushCheck_unwritable:
  assumes "socket s = Some sk" and "\<not> writable sk" and "\<not> flushingSendQueue s" and "ticks s = []"
  shows "run [Tick] (flushSendQueue s) =
           Inl (ReferenceError ''waitToWrite is not defined'', s\<lparr>flushingSendQueue := True\<rparr>)"
  using assms by (simp add: flushSendQueue_def nextTick_def flushCheck_def)

text \<open>
  Claim C1 (evaluation at the input the code mishandles). An item is submitted, the socket
  connects and the connect callback calls \<^verbatim>\<open>_flushSendQueue\<close>; the socket is no longer
  writable when the scheduled check runs. The check does not schedule a retry: it throws a
  \<^verbatim>\<open>ReferenceError\<close>, since \<^verbatim>\<open>waitToWrite\<close> is not declared anywhere. Nothing has been
  written and the in-progress flag stays set.
\<close>

theorem unwritable_socket_flush_throws:
  "(case run [Emit [JStr ''web'', JObj []] 5000 ''r'', SockConnect Cur, SockWritable Cur False, Tick]
           (FluentSender None JUndefined) of
      Inl x \<Rightarrow> fst x = ReferenceError ''waitToWrite is not defined'' \<and> written (snd x) = [] \<and>
               flushingSendQueue (snd x) \<and> ticks (snd x) = []
    | Inr s' \<Rightarrow> False)"
  by code_simp

text \<open>
  Claim C4 (evaluation at the input the code mishandles). The constructor replaces a configured
  \<^verbatim>\<open>reconnectInterval\<close> of 0 by 600000, so the guard of \<^verbatim>\<open>_setupErrorHandler\<close> never
  sees a falsy interval: once the supervisor is set up, a transport error schedules a reconnect
  after 600000 ms. And the constructor does not call \<^verbatim>\<open>_setupErrorHandler\<close>: a sender built
  with an interval of 5000 has no \<^verbatim>\<open>error\<close> listener, and a transport error schedules
  nothing.
\<close>

theorem reconnect_zero_not_disabled:
  "reconnectInterval (FluentSender (Some ''app'') (JObj [(''reconnectInterval'', JNum 0)])) = JNum 600000 \<and>
   (case run [Emit [JObj []] 5000 ''r'', SockError Cur 1]
           (setupErrorHandler (FluentSender (Some ''app'') (JObj [(''reconnectInterval'', JNum 0)]))) of
      Inl x \<Rightarrow> False
    | Inr s \<Rightarrow> timers s = [(0, TO_reconnect, JNum 600000)]) \<and>
   (case run [Emit [JObj []] 5000 ''r'', SockError Cur 1]
           (FluentSender (Some ''app'') (JObj [(''reconnectInterval'', JNum 5000)])) of
      Inl x \<Rightarrow> False
    | Inr s \<Rightarrow> timers s = [] \<and> ticks s = [] \<and> socket s = None \<and> eventEmitter s = [])"
  by code_simp

text \<open>
  Claim C2 (evaluation at the input the code mishandles). With acknowledgment required, an item
  submitted with callback 7 is written, and the response carries another \<^verbatim>\<open>ack\<close> than the
  item's chunk: the callback is called twice, first with the \<^verbatim>\<open>ResponseError\<close> by
  \<^verbatim>\<open>_handleEvent\<close>, then again without argument.
\<close>

theorem callback_twice_on_mismatch:
  "(case run [Emit [JStr ''web'', JObj [], JFun 7] 5000 ''c1'', SockConnect Cur, Tick,
             SockWriteDone Cur, SockData Cur (JObj [(''ack'', JStr ''zz'')])]
           (FluentSender None (JObj [(''requireAckResponse'', JBool True)])) of
      Inl x \<Rightarrow> False
    | Inr s \<Rightarrow> trace s =
        [CallbackCalled 7 (Some (ResponseError
            ''ack in response and chunk id in sent data are different'' (JStr ''zz'') (JStr ''c1''))),
         CallbackCalled 7 None])"
  by code_simp







subsection \<open>The invariant of the flush loop\<close>

lemma loopInv_frame:
  "socket s' = socket s \<Longrightarrow> oldSockets s' = oldSockets s \<Longrightarrow> ticks s' = ticks s \<Longrightarrow>
   flushingSendQueue s' = flushingSendQueue s \<Longrightarrow> accepted s' = accepted s \<Longrightarrow>
   written s' = written s \<Longrightarrow> sendQueue s' = sendQueue s \<Longrightarrow>
   eventEmitter s' = eventEmitter s \<Longrightarrow> timers s' = timers s \<Longrightarrow>
   loopInv s' = loopInv s \<and> inFlight s' = inFlight s \<and> flushTasks s' = flushTasks s"
  by (simp add: loopInv_def inFlight_def allSockets_def flushTasks_def listening_def ackTimers_def)

lemma listenersOf_subset: "set (listenersOf signal s) \<subseteq> snd ` set (eventEmitter s)"
  by (auto simp: listenersOf_def)

lemma loopInv_invoke:
  "loopInv (invoke cb d s) = loopInv s \<and> inFlight (invoke cb d s) = inFlight s \<and>
   flushTasks (invoke cb d s) = flushTasks s"
  by (rule loopInv_frame) (simp_all add: invoke_fields)

lemma loopInv_handleEvent:
  assumes "Supervisor \<notin> snd ` set (eventEmitter s)"
  shows "loopInv (dispatch signal d cb s) = loopInv s \<and>
         inFlight (dispatch signal d cb s) = inFlight s \<and>
         flushTasks (dispatch signal d cb s) = flushTasks s"
proof -
  have "Supervisor \<notin> set (listenersOf signal s)"
    using assms listenersOf_subset by blast
  then show ?thesis
    by (intro loopInv_frame) (simp_all add: dispatch_fields dispatch_quiet)
qed

lemma loopInv_init: "loopInv (FluentSender p opts)"
  by (simp add: loopInv_def FluentSender_def Let_def inFlight_def allSockets_def flushTasks_def
      listening_def ackTimers_def)

lemma pending_drop [simp]: "pending (sk\<lparr>destroyed := a, writable := b\<rparr>) = pending sk"
  by (simp add: pending_def)

lemma inFlight_upd [simp]:
  "inFlight (s\<lparr>flushingSendQueue := x1\<rparr>) = inFlight s" "inFlight (s\<lparr>trace := x2\<rparr>) = inFlight s" "inFlight (s\<lparr>sendQueue := x3\<rparr>) = inFlight s" "inFlight (s\<lparr>accepted := x4\<rparr>) = inFlight s" "inFlight (s\<lparr>written := x5\<rparr>) = inFlight s" "inFlight (s\<lparr>timerSeq := x6\<rparr>) = inFlight s" "inFlight (s\<lparr>eventEmitter := x7\<rparr>) = inFlight s" "inFlight (s\<lparr>ticks := x8\<rparr>) = inFlight s" "inFlight (s\<lparr>timers := x9\<rparr>) = inFlight s"
  by (simp_all add: inFlight_def allSockets_def)

lemma listening_upd [simp]:
  "listening (s\<lparr>flushingSendQueue := x1\<rparr>) = listening s" "listening (s\<lparr>trace := x2\<rparr>) = listening s" "listening (s\<lparr>sendQueue := x3\<rparr>) = listening s" "listening (s\<lparr>accepted := x4\<rparr>) = listening s" "listening (s\<lparr>written := x5\<rparr>) = listening s" "listening (s\<lparr>timerSeq := x6\<rparr>) = listening s" "listening (s\<lparr>eventEmitter := x7\<rparr>) = listening s" "listening (s\<lparr>ticks := x8\<rparr>) = listening s" "listening (s\<lparr>timers := x9\<rparr>) = listening s"
  by (simp_all add: listening_def allSockets_def)

lemma flushTasks_upd [simp]:
  "flushTasks (s\<lparr>flushingSendQueue := x1\<rparr>) = flushTasks s" "flushTasks (s\<lparr>trace := x2\<rparr>) = flushTasks s" "flushTasks (s\<lparr>sendQueue := x3\<rparr>) = flushTasks s" "flushTasks (s\<lparr>accepted := x4\<rparr>) = flushTasks s" "flushTasks (s\<lparr>written := x5\<rparr>) = flushTasks s" "flushTasks (s\<lparr>timerSeq := x6\<rparr>) = flushTasks s" "flushTasks (s\<lparr>eventEmitter := x7\<rparr>) = flushTasks s" "flushTasks (s\<lparr>timers := x8\<rparr>) = flushTasks s" "flushTasks (s\<lparr>socket := x9\<rparr>) = flushTasks s" "flushTasks (s\<lparr>oldSockets := x10\<rparr>) = flushTasks s"
  by (simp_all add: flushTasks_def)

lemma ackTimers_upd [simp]:
  "ackTimers (s\<lparr>flushingSendQueue := x1\<rparr>) = ackTimers s" "ackTimers (s\<lparr>trace := x2\<rparr>) = ackTimers s" "ackTimers (s\<lparr>sendQueue := x3\<rparr>) = ackTimers s" "ackTimers (s\<lparr>accepted := x4\<rparr>) = ackTimers s" "ackTimers (s\<lparr>written := x5\<rparr>) = ackTimers s" "ackTimers (s\<lparr>timerSeq := x6\<rparr>) = ackTimers s" "ackTimers (s\<lparr>eventEmitter := x7\<rparr>) = ackTimers s" "ackTimers (s\<lparr>ticks := x8\<rparr>) = ackTimers s" "ackTimers (s\<lparr>socket := x9\<rparr>) = ackTimers s" "ackTimers (s\<lparr>oldSockets := x10\<rparr>) = ackTimers s"
  by (simp_all add: ackTimers_def)

lemma dropSocket_loop:
  assumes "socket s = Some sk"
  shows "inFlight (dropSocket sk s) = inFlight s" "listening (dropSocket sk s) = listening s"
    "flushTasks (dropSocket sk s) = flushTasks s" "ackTimers (dropSocket sk s) = ackTimers s"
  using assms
  by (auto simp: dropSocket_def inFlight_def allSockets_def listening_def flushTasks_def ackTimers_def)

lemma dropSocket_fields:
  "ticks (dropSocket sk s) = ticks s" "timers (dropSocket sk s) = timers s"
  "flushingSendQueue (dropSocket sk s) = flushingSendQueue s"
  "accepted (dropSocket sk s) = accepted s" "written (dropSocket sk s) = written s"
  "sendQueue (dropSocket sk s) = sendQueue s" "eventEmitter (dropSocket sk s) = eventEmitter s"
  "socket (dropSocket sk s) = None"
  by (simp_all add: dropSocket_def)

lemma nextTick_loop:
  "inFlight (nextTick t s) = inFlight s" "listening (nextTick t s) = listening s"
  "ackTimers (nextTick t s) = ackTimers s"
  "flushTasks (nextTick t s) = flushTasks s + (if t = T_flushCheck \<or> t = T_doFlush then 1 else 0)"
  by (simp_all add: nextTick_def inFlight_def allSockets_def listening_def flushTasks_def ackTimers_def)

lemma nextTick_fields:
  "timers (nextTick t s) = timers s"
  "flushingSendQueue (nextTick t s) = flushingSendQueue s"
  "accepted (nextTick t s) = accepted s" "written (nextTick t s) = written s"
  "sendQueue (nextTick t s) = sendQueue s" "eventEmitter (nextTick t s) = eventEmitter s"
  "socket (nextTick t s) = socket s" "oldSockets (nextTick t s) = oldSockets s"
  by (simp_all add: nextTick_def)

lemma loopInv_dropSocket: "socket s = Some sk \<Longrightarrow> loopInv (dropSocket sk s) = loopInv s"
  by (simp add: loopInv_def dropSocket_loop dropSocket_fields)

lemma loopInv_nextTick_other:
  "t \<noteq> T_flushCheck \<Longrightarrow> t \<noteq> T_doFlush \<Longrightarrow> loopInv (nextTick t s) = loopInv s"
  by (simp add: loopInv_def nextTick_loop nextTick_fields)

lemma loopInv_connect:
  assumes "loopInv s"
  shows "loopInv (connect k s) \<and> inFlight (connect k s) = inFlight s \<and> 
         flushTasks (connect k s) = flushTasks s \<and> flushingSendQueue (connect k s) = flushingSendQueue s"
proof (cases "socket s")
  case None
  with assms show ?thesis
    by (simp add: connect_def loopInv_def inFlight_def allSockets_def flushTasks_def
        listening_def ackTimers_def pending_def)
next
  case (Some sk)
  with assms show ?thesis
    by (simp add: connect_def loopInv_dropSocket loopInv_nextTick_other nextTick_loop
        nextTick_fields dropSocket_loop dropSocket_fields)
qed

lemma loopInv_flushSendQueue:
  assumes "loopInv s"
  shows "loopInv (flushSendQueue s)"
proof (cases "flushingSendQueue s")
  case True
  with assms show ?thesis by (simp add: flushSendQueue_def)
next
  case False
  with assms have z: "inFlight s + flushTasks s = 0" by (simp add: loopInv_def)
  have "loopInv (nextTick T_flushCheck (s\<lparr>flushingSendQueue := True\<rparr>))"
    using assms z
    by (simp add: loopInv_def nextTick_loop nextTick_fields)
  with False show ?thesis by (simp add: flushSendQueue_def)
qed

lemma loopInv_runKont: "loopInv s \<Longrightarrow> loopInv (runKont k s)"
proof (cases k)
  case K_flush
  assume "loopInv s"
  with K_flush show ?thesis by (simp add: loopInv_flushSendQueue)
next
  case K_reconnected
  assume a: "loopInv s"
  have "loopInv (s\<lparr>trace := trace s @ [LogInfo ''Fluentd reconnection finished!!'']\<rparr>) = loopInv s"
    using loopInv_frame [of "s\<lparr>trace := trace s @ [LogInfo ''Fluentd reconnection finished!!'']\<rparr>" s]
    by simp
  with a K_reconnected show ?thesis by simp
qed

lemma sum_list_map_update:
  fixes f :: "'a \<Rightarrow> nat"
  shows "j < length xs \<Longrightarrow> sum_list (map f (xs[j := y])) + f (xs ! j) = sum_list (map f xs) + f y"
proof (induction xs arbitrary: j)
  case Nil
  then show ?case by simp
next
  case (Cons x xs)
  then show ?case by (cases j) auto
qed

lemma putSock_inFlight:
  assumes "getSock r s = Some sk"
  shows "inFlight (putSock r sk' s) + pending sk = inFlight s + pending sk'"
proof (cases r)
  case Cur
  with assms show ?thesis by (simp add: inFlight_def allSockets_def)
next
  case (Old j)
  with assms have j: "j < length (oldSockets s)" "oldSockets s ! j = sk"
    by (auto split: if_splits)
  from sum_list_map_update [OF j(1), of pending sk'] j(2) Old show ?thesis
    by (simp add: inFlight_def allSockets_def)
qed

lemma concat_map_update_same:
  "j < length xs \<Longrightarrow> g y = g (xs ! j) \<Longrightarrow> map g (xs[j := y]) = map g xs"
  by (simp add: map_update list_update_same_conv)

lemma putSock_listening_same:
  assumes "getSock r s = Some sk" and "dataListeners sk' = dataListeners sk"
  shows "listening (putSock r sk' s) = listening s"
proof (cases r)
  case Cur
  with assms show ?thesis by (simp add: listening_def allSockets_def)
next
  case (Old j)
  with assms have j: "j < length (oldSockets s)" "oldSockets s ! j = sk"
    by (auto split: if_splits)
  have "map dataListeners ((oldSockets s)[j := sk']) = map dataListeners (oldSockets s)"
    using j assms(2) by (intro concat_map_update_same) simp_all
  with Old show ?thesis by (simp add: listening_def allSockets_def)
qed

lemma set_concat_update_remove1:
  assumes "j < length xs" and "g y = remove1 h (g (xs ! j))"
  shows "set (concat (map g xs)) - {h} \<subseteq> set (concat (map g (xs[j := y])))"
proof
  fix x assume "x \<in> set (concat (map g xs)) - {h}"
  then have x: "x \<noteq> h" and "\<exists>z \<in> set xs. x \<in> set (g z)" by auto
  then obtain z where z: "z \<in> set xs" "x \<in> set (g z)" by blast
  from z(1) obtain i where "i < length xs" "xs ! i = z" by (meson in_set_conv_nth)
  with z(2) have i: "i < length xs" "x \<in> set (g (xs ! i))" by simp_all
  show "x \<in> set (concat (map g (xs[j := y])))"
  proof (cases "i = j")
    case True
    with i x assms have "x \<in> set (g y)" by simp
    moreover have "y \<in> set (xs[j := y])" using assms(1) by (simp add: set_update_memI)
    ultimately show ?thesis by auto
  next
    case False
    with i have "xs ! i \<in> set (xs[j := y])"
      by (metis length_list_update nth_list_update_neq nth_mem)
    with i(2) show ?thesis by auto
  qed
qed

lemma unlisten_listening:
  assumes "getSock r s = Some sk"
  shows "listening s - {h} \<subseteq> listening (unlisten r h s)"
proof (cases r)
  case Cur
  with assms show ?thesis
    by (auto simp: unlisten_def listening_def allSockets_def)
next
  case (Old j)
  with assms have j: "j < length (oldSockets s)" "oldSockets s ! j = sk"
    by (auto split: if_splits)
  have "set (concat (map dataListeners (oldSockets s))) - {h}
        \<subseteq> set (concat (map dataListeners
              ((oldSockets s)[j := sk\<lparr>dataListeners := remove1 h (dataListeners sk)\<rparr>])))"
    using j by (intro set_concat_update_remove1) simp_all
  with Old assms show ?thesis
    by (auto simp: unlisten_def listening_def allSockets_def)
qed

lemma putSock_fields:
  "ticks (putSock r sk s) = ticks s" "timers (putSock r sk s) = timers s"
  "flushingSendQueue (putSock r sk s) = flushingSendQueue s"
  "accepted (putSock r sk s) = accepted s" "written (putSock r sk s) = written s"
  "sendQueue (putSock r sk s) = sendQueue s" "eventEmitter (putSock r sk s) = eventEmitter s"
  "flushTasks (putSock r sk s) = flushTasks s" "ackTimers (putSock r sk s) = ackTimers s"
  "requireAckResponse (putSock r sk s) = requireAckResponse s"
  "trace (putSock r sk s) = trace s" "timerSeq (putSock r sk s) = timerSeq s"
  by (cases r; simp)+

lemma getSock_pending_le:
  assumes "getSock r s = Some sk"
  shows "pending sk \<le> inFlight s"
proof (cases r)
  case Cur
  with assms show ?thesis by (simp add: inFlight_def allSockets_def)
next
  case (Old j)
  with assms have "sk \<in> set (oldSockets s)" by (auto split: if_splits)
  then have "pending sk \<le> sum_list (map pending (oldSockets s))"
    by (simp add: member_le_sum_list)
  then show ?thesis by (simp add: inFlight_def allSockets_def)
qed

lemma getSock_listening:
  assumes "getSock r s = Some sk"
  shows "set (dataListeners sk) \<subseteq> listening s"
proof (cases r)
  case Cur
  with assms show ?thesis by (simp add: listening_def allSockets_def)
next
  case (Old j)
  with assms have "sk \<in> set (oldSockets s)" by (auto split: if_splits)
  then show ?thesis by (auto simp: listening_def allSockets_def)
qed

lemma pop_flush:
  assumes "loopInv s" and "ticks s = t # ts" and "t = T_flushCheck \<or> t = T_doFlush"
  shows "loopIdle (s\<lparr>ticks := ts\<rparr>)"
  using assms by (auto simp: loopIdle_def loopInv_def flushTasks_def)

lemma pop_other:
  assumes "loopInv s" and "ticks s = t # ts" and "t \<noteq> T_flushCheck" and "t \<noteq> T_doFlush"
  shows "loopInv (s\<lparr>ticks := ts\<rparr>)"
  using assms by (auto simp: loopInv_def flushTasks_def)

lemma loopIdle_doFlush:
  assumes "loopIdle s" and "doFlushSendQueue s = Inr s'"
  shows "loopInv s'"
proof (cases "sendQueue s")
  case Nil
  with assms show ?thesis
    by (auto simp: doFlushSendQueue_def loopIdle_def loopInv_def)
next
  case (Cons it rest)
  with assms(2) obtain sk where sk: "socket s = Some sk"
    and s': "s' = s\<lparr>sendQueue := rest,
                     socket := Some (sk\<lparr>writeCallbacks := writeCallbacks sk @ [it]\<rparr>),
                     written := written s @ [it]\<rparr>"
    by (auto simp: doFlushSendQueue_def Let_def split: option.splits)
  have "inFlight s' = Suc (inFlight s)" "listening s' = listening s"
    using sk by (simp_all add: s' inFlight_def listening_def allSockets_def pending_def)
  with assms(1) Cons show ?thesis
    by (simp add: loopIdle_def loopInv_def s')
qed

lemma doFlush_throws:
  assumes "doFlushSendQueue s = Inl x"
  shows "written (snd x) = written s \<and> accepted (snd x) = accepted s \<and> inFlight (snd x) = inFlight s"
  using assms
  by (auto simp: doFlushSendQueue_def Let_def inFlight_def allSockets_def
      split: list.splits option.splits)

lemma flushCheck_throws:
  assumes "flushCheck s = Inl x"
  shows "written (snd x) = written s \<and> accepted (snd x) = accepted s \<and> inFlight (snd x) = inFlight s"
proof (cases "socket s")
  case None
  with assms show ?thesis by (simp add: flushCheck_def)
next
  case (Some sk)
  with assms doFlush_throws [of s x] show ?thesis
    by (auto simp: flushCheck_def split: if_splits)
qed

lemma loopIdle_flushCheck:
  assumes "loopIdle s" and "flushCheck s = Inr s'"
  shows "loopInv s'"
proof (cases "socket s")
  case None
  with assms show ?thesis
    by (auto simp: flushCheck_def loopIdle_def loopInv_def)
next
  case (Some sk)
  with assms loopIdle_doFlush [of s s'] show ?thesis
    by (auto simp: flushCheck_def split: if_splits)
qed

lemma loopIdle_nextTick:
  assumes "loopIdle s"
  shows "loopInv (nextTick T_doFlush s)"
  using assms by (simp add: loopIdle_def loopInv_def nextTick_loop nextTick_fields)

lemma loopIdle_invoke: "loopIdle (invoke cb d s) = loopIdle s"
  by (simp add: loopIdle_def loopInv_invoke invoke_fields)

lemma loopIdle_handleEvent:
  assumes "loopIdle s"
  shows "loopIdle (dispatch signal d cb s)"
proof -
  have n: "Supervisor \<notin> snd ` set (eventEmitter s)"
    using assms by (simp add: loopIdle_def loopInv_def)
  then have "Supervisor \<notin> set (listenersOf signal s)"
    using listenersOf_subset by blast
  with assms loopInv_handleEvent [OF n, of signal d cb] show ?thesis
    by (simp add: loopIdle_def dispatch_quiet)
qed

lemma loopIdle_writeDone:
  assumes "loopIdle s" and "writeDone it s = Inr s'"
  shows "loopInv s'"
proof (cases "truthy (requireAckResponse s)")
  case False
  with assms(2) have "s' = nextTick T_doFlush (invoke (callback it) None s)"
    by (simp add: writeDone_def)
  with assms(1) show ?thesis by (simp add: loopIdle_nextTick loopIdle_invoke)
next
  case True
  with assms(2) obtain sk where sk: "socket s = Some sk"
    and s': "s' = s\<lparr>socket := Some (sk\<lparr>dataListeners := dataListeners sk @ [(it, timerSeq s)]\<rparr>),
                     timers := timers s @ [(timerSeq s, TO_ack it, ackResponseTimeout s)],
                     timerSeq := Suc (timerSeq s)\<rparr>"
    by (auto simp: writeDone_def split: option.splits)
  have "inFlight s' = Suc (inFlight s)" "listening s' = insert (it, timerSeq s) (listening s)"
    "set (ackTimers s') = insert (it, timerSeq s) (set (ackTimers s))"
    "flushTasks s' = flushTasks s"
    using sk by (auto simp: s' inFlight_def listening_def allSockets_def pending_def ackTimers_def
        flushTasks_def)
  with assms(1) show ?thesis
    by (auto simp: loopIdle_def loopInv_def s')
qed

lemma writeDone_throws:
  assumes "writeDone it s = Inl x"
  shows "snd x = s"
  using assms by (auto simp: writeDone_def split: if_splits option.splits)

lemma take_write:
  assumes "loopInv s" and "getSock r s = Some sk" and "writeCallbacks sk = it # rest"
  shows "loopIdle (putSock r (sk\<lparr>writeCallbacks := rest\<rparr>) s)"
proof -
  let ?s1 = "putSock r (sk\<lparr>writeCallbacks := rest\<rparr>) s"
  have "inFlight ?s1 + pending sk = inFlight s + pending (sk\<lparr>writeCallbacks := rest\<rparr>)"
    using assms(2) by (rule putSock_inFlight)
  with assms(3) have i: "Suc (inFlight ?s1) = inFlight s" by (simp add: pending_def)
  have l: "listening ?s1 = listening s"
    using assms(2) by (intro putSock_listening_same) simp_all
  from assms(1) i l show ?thesis
    by (auto simp: loopIdle_def loopInv_def putSock_fields)
qed

lemma ackTimers_clearTimeout:
  "set (ackTimers (clearTimeout tid s)) = {p \<in> set (ackTimers s). snd p \<noteq> tid}"
  by (auto simp: ackTimers_def clearTimeout_def split: timer.splits)

lemma clearTimeout_fields:
  "inFlight (clearTimeout tid s) = inFlight s" "listening (clearTimeout tid s) = listening s"
  "flushTasks (clearTimeout tid s) = flushTasks s"
  "flushingSendQueue (clearTimeout tid s) = flushingSendQueue s"
  "accepted (clearTimeout tid s) = accepted s" "written (clearTimeout tid s) = written s"
  "sendQueue (clearTimeout tid s) = sendQueue s" "eventEmitter (clearTimeout tid s) = eventEmitter s"
  "ticks (clearTimeout tid s) = ticks s" "socket (clearTimeout tid s) = socket s"
  "oldSockets (clearTimeout tid s) = oldSockets s"
  by (simp_all add: clearTimeout_def)

lemma loopInv_clearTimeout: "loopInv s \<Longrightarrow> loopInv (clearTimeout tid s)"
  by (auto simp: loopInv_def clearTimeout_fields ackTimers_clearTimeout)

lemma take_listener:
  assumes "loopInv s" and "getSock r s = Some sk" and "(it, tid) \<in> set (dataListeners sk)"
  shows "loopIdle (clearTimeout tid (unlisten r (it, tid) s))"
proof -
  let ?sk' = "sk\<lparr>dataListeners := remove1 (it, tid) (dataListeners sk)\<rparr>"
  let ?s1 = "unlisten r (it, tid) s"
  have u: "?s1 = putSock r ?sk' s" using assms(2) by (simp add: unlisten_def)
  have "inFlight ?s1 + pending sk = inFlight s + pending ?sk'"
    unfolding u using assms(2) by (rule putSock_inFlight)
  moreover have "Suc (pending ?sk') = pending sk"
    using assms(3) by (auto simp: pending_def length_remove1 dest: length_pos_if_in_set)
  ultimately have i: "Suc (inFlight ?s1) = inFlight s" by simp
  have l: "listening s - {(it, tid)} \<subseteq> listening ?s1"
    using assms(2) by (rule unlisten_listening)
  have a: "set (ackTimers (clearTimeout tid ?s1)) \<subseteq> listening ?s1"
  proof
    fix p assume "p \<in> set (ackTimers (clearTimeout tid ?s1))"
    then have "p \<in> set (ackTimers s)" "snd p \<noteq> tid"
      by (simp_all add: ackTimers_clearTimeout u putSock_fields)
    with assms(1) have "p \<in> listening s - {(it, tid)}" by (auto simp: loopInv_def)
    with l show "p \<in> listening ?s1" by blast
  qed
  from assms(1) i a show ?thesis
    by (auto simp: loopIdle_def loopInv_def clearTimeout_fields u putSock_fields)
qed

lemma loopIdle_onData:
  assumes "loopIdle (clearTimeout tid s)" and "onData it tid resp s = Inr s'"
  shows "loopInv s'"
proof -
  let ?s1 = "clearTimeout tid s"
  from assms(2) obtain ack where "readProp resp ''ack'' = Some ack"
    by (auto simp: onData_eq Let_def split: option.splits)
  with assms(2) obtain s2 where s2: "s' = nextTick T_doFlush (invoke (callback it) None s2)"
    and c: "s2 = ?s1 \<or> (\<exists>e. s2 = dispatch ''error'' e (callback it) ?s1)"
    by (auto simp: onData_eq Let_def split: if_splits)
  from c assms(1) have "loopIdle s2" by (auto simp: loopIdle_handleEvent)
  then show ?thesis by (simp add: s2 loopIdle_nextTick loopIdle_invoke)
qed

lemma onData_throws:
  assumes "onData it tid resp s = Inl x"
  shows "snd x = clearTimeout tid s"
  using assms by (auto simp: onData_eq Let_def split: option.splits)

lemma listeners_le_one:
  assumes "loopInv s" and "getSock r s = Some sk"
  shows "dataListeners sk = [] \<or> (\<exists>h. dataListeners sk = [h])"
proof -
  have "pending sk \<le> 1"
    using getSock_pending_le [OF assms(2)] assms(1) by (simp add: loopInv_def)
  then have "length (dataListeners sk) \<le> 1" by (simp add: pending_def)
  then show ?thesis by (cases "dataListeners sk") auto
qed

lemma loopInv_fireData:
  assumes "loopInv s" and "getSock r s = Some sk"
  shows "resultInv (fireData r resp (dataListeners sk) s)"
proof -
  from listeners_le_one [OF assms] show ?thesis
  proof
    assume "dataListeners sk = []"
    with assms(1) show ?thesis by simp
  next
    assume "\<exists>h. dataListeners sk = [h]"
    then obtain it tid where h: "dataListeners sk = [(it, tid)]" by auto
    then have "(it, tid) \<in> set (dataListeners sk)" by simp
    from take_listener [OF assms this]
    have idle: "loopIdle (clearTimeout tid (unlisten r (it, tid) s))" .
    show ?thesis
    proof (cases "onData it tid resp (unlisten r (it, tid) s)")
      case (Inr s')
      with loopIdle_onData [OF idle Inr] h show ?thesis by simp
    next
      case (Inl x)
      from onData_throws [OF Inl] idle
      have "accepted (snd x) = written (snd x) @ sendQueue (snd x)" "inFlight (snd x) = 0"
        by (simp_all add: loopIdle_def loopInv_def)
      with Inl h show ?thesis by simp
    qed
  qed
qed

lemma loopInv_push:
  assumes "loopInv s"
  shows "loopInv (s\<lparr>sendQueue := sendQueue s @ [x], accepted := accepted s @ [x]\<rparr>)"
  using assms by (simp add: loopInv_def)

lemma loopInv_emit:
  assumes "loopInv s"
  shows "resultInv (emit args now rnd s)"
proof -
  have n: "Supervisor \<notin> snd ` set (eventEmitter s)"
    using assms by (simp add: loopInv_def)
  let ?a = "parseArgs args"
  show ?thesis
  proof (cases "makePacketItem s (a_label ?a) (a_data ?a) (a_timestamp ?a) now rnd")
    case (Inl e)
    with assms show ?thesis by (simp add: emit_def Let_def loopInv_def)
  next
    case (Inr it)
    with assms show ?thesis
      by (simp add: emit_def Let_def loopInv_handleEvent [OF n] loopInv_connect loopInv_push)
  qed
qed

lemma loopInv_trace: "loopInv (s\<lparr>trace := x\<rparr>) = loopInv s"
  by (simp add: loopInv_def)

lemma loopInv_timer:
  assumes "loopInv s"
  shows "resultInv (fire (TimerFire t) s)"
proof (cases "map_of (timers s) t")
  case None
  with assms show ?thesis by simp
next
  case (Some e)
  obtain tm d where e: "e = (tm, d)" by (cases e)
  have c: "loopInv (clearTimeout t s)" using assms by (rule loopInv_clearTimeout)
  then have n: "Supervisor \<notin> snd ` set (eventEmitter (clearTimeout t s))"
    by (simp add: loopInv_def)
  show ?thesis
  proof (cases tm)
    case (TO_ack it)
    with Some e c show ?thesis
      by (simp add: onAckTimeout_eq loopInv_handleEvent [OF n])
  next
    case TO_reconnect
    with Some e c show ?thesis
      by (simp add: onReconnectTimer_def loopInv_connect loopInv_trace)
  qed
qed

lemma loopInv_listeners:
  assumes "loopInv s"
  shows "loopInv (addListener signal f s)" "loopInv (removeListener signal f s)"
  using assms
  using set_removeLast [of "(signal, UserListener f)" "eventEmitter s"]
  by (auto simp: loopInv_def addListener_def removeListener_def)

lemma loopInv_tick:
  assumes "loopInv s"
  shows "resultInv (fire Tick s)"
proof (cases "ticks s")
  case Nil
  with assms show ?thesis by simp
next
  case (Cons t ts)
  let ?s1 = "s\<lparr>ticks := ts\<rparr>"
  show ?thesis
  proof (cases t)
    case (T_connect k)
    with Cons assms have "loopInv ?s1" by (intro pop_other [of s t ts]) simp_all
    with Cons T_connect show ?thesis by (simp add: loopInv_connect)
  next
    case (T_call k)
    with Cons assms have "loopInv ?s1" by (intro pop_other [of s t ts]) simp_all
    with Cons T_call show ?thesis by (simp add: loopInv_runKont)
  next
    case T_flushCheck
    with Cons assms have idle: "loopIdle ?s1" by (intro pop_flush [of s t ts]) simp_all
    show ?thesis
    proof (cases "flushCheck ?s1")
      case (Inr s')
      with loopIdle_flushCheck [OF idle Inr] Cons T_flushCheck show ?thesis by simp
    next
      case (Inl x)
      with flushCheck_throws [OF Inl] idle Cons T_flushCheck show ?thesis
        by (simp add: loopIdle_def loopInv_def)
    qed
  next
    case T_doFlush
    with Cons assms have idle: "loopIdle ?s1" by (intro pop_flush [of s t ts]) simp_all
    show ?thesis
    proof (cases "doFlushSendQueue ?s1")
      case (Inr s')
      with loopIdle_doFlush [OF idle Inr] Cons T_doFlush show ?thesis by simp
    next
      case (Inl x)
      with doFlush_throws [OF Inl] idle Cons T_doFlush show ?thesis
        by (simp add: loopIdle_def loopInv_def)
    qed
  qed
qed

lemma loopInv_putSock_same:
  assumes "loopInv s" and "getSock r s = Some sk"
    and "dataListeners sk' = dataListeners sk" and "writeCallbacks sk' = writeCallbacks sk"
  shows "loopInv (putSock r sk' s)"
proof -
  have "inFlight (putSock r sk' s) + pending sk = inFlight s + pending sk'"
    using assms(2) by (rule putSock_inFlight)
  with assms(3,4) have "inFlight (putSock r sk' s) = inFlight s" by (simp add: pending_def)
  moreover have "listening (putSock r sk' s) = listening s"
    using assms(2,3) by (rule putSock_listening_same)
  ultimately show ?thesis using assms(1) by (simp add: loopInv_def putSock_fields)
qed

lemma loopInv_sockets:
  assumes "loopInv s"
  shows "resultInv (fire (SockConnect r) s)" "resultInv (fire (SockError r e) s)"
    "resultInv (fire (SockWritable r b) s)" "resultInv (fire (SockWriteDone r) s)"
    "resultInv (fire (SockData r resp) s)"
proof -
  have n: "Supervisor \<notin> snd ` set (eventEmitter s)"
    using assms by (simp add: loopInv_def)
  have c: "loopInv (dispatch ''connect'' None None s)"
    using assms by (simp add: onSocketConnect_eq loopInv_handleEvent [OF n])
  show "resultInv (fire (SockConnect r) s)"
  proof (cases "getSock r s")
    case None
    with assms show ?thesis by simp
  next
    case (Some sk)
    have g: "getSock r (dispatch ''connect'' None None s) = Some sk"
      using Some by (cases r) (auto simp: onSocketConnect_eq dispatch_fields split: if_splits)
    show ?thesis
    proof (cases "connectListener sk")
      case None
      with Some c show ?thesis by simp
    next
      case (Some k)
      have "loopInv (putSock r (sk\<lparr>connectListener := None\<rparr>) (dispatch ''connect'' None None s))"
        using c g by (rule loopInv_putSock_same) simp_all
      with Some \<open>getSock r s = Some sk\<close> show ?thesis by (simp add: loopInv_runKont)
    qed
  qed
  show "resultInv (fire (SockError r e) s)"
  proof (cases "socket s")
    case None
    with assms show ?thesis by (simp add: onSocketError_eq split: option.splits)
  next
    case (Some sk)
    then have d: "loopInv (dropSocket sk s)" using assms by (simp add: loopInv_dropSocket)
    then have "Supervisor \<notin> snd ` set (eventEmitter (dropSocket sk s))"
      by (simp add: loopInv_def)
    from loopInv_handleEvent [OF this] d Some assms show ?thesis
      by (simp add: onSocketError_eq split: option.splits)
  qed
  show "resultInv (fire (SockWritable r b) s)"
  proof (cases "getSock r s")
    case None
    with assms show ?thesis by simp
  next
    case (Some sk)
    have "loopInv (putSock r (sk\<lparr>writable := b\<rparr>) s)"
      using assms Some by (rule loopInv_putSock_same) simp_all
    with Some show ?thesis by simp
  qed
  show "resultInv (fire (SockWriteDone r) s)"
  proof (cases "getSock r s")
    case None
    with assms show ?thesis by simp
  next
    case (Some sk)
    show ?thesis
    proof (cases "writeCallbacks sk")
      case Nil
      with Some assms show ?thesis by simp
    next
      case (Cons it rest)
      from take_write [OF assms Some Cons]
      have idle: "loopIdle (putSock r (sk\<lparr>writeCallbacks := rest\<rparr>) s)" .
      show ?thesis
      proof (cases "writeDone it (putSock r (sk\<lparr>writeCallbacks := rest\<rparr>) s)")
        case (Inr s')
        with loopIdle_writeDone [OF idle Inr] Some Cons show ?thesis by simp
      next
        case (Inl x)
        with writeDone_throws [OF Inl] idle Some Cons show ?thesis
          by (simp add: loopIdle_def loopInv_def)
      qed
    qed
  qed
  show "resultInv (fire (SockData r resp) s)"
  proof (cases "getSock r s")
    case None
    with assms show ?thesis by simp
  next
    case (Some sk)
    with loopInv_fireData [OF assms Some, of resp] show ?thesis by simp
  qed
qed

lemma loopInv_fire:
  assumes "loopInv s"
  shows "resultInv (fire e s)"
proof (cases e)
  case (Emit args now rnd)
  with loopInv_emit [OF assms] show ?thesis by simp
next
  case (On signal f)
  with loopInv_listeners [OF assms] show ?thesis by simp
next
  case (RemoveListener signal f)
  with loopInv_listeners [OF assms] show ?thesis by simp
next
  case Tick
  with loopInv_tick [OF assms] show ?thesis by simp
next
  case (TimerFire t)
  with loopInv_timer [OF assms] show ?thesis by simp
next
  case (SockConnect r)
  with loopInv_sockets(1) [OF assms, of r] show ?thesis by simp
next
  case (SockError r x)
  with loopInv_sockets(2) [OF assms, of r x] show ?thesis by simp
next
  case (SockWritable r b)
  with loopInv_sockets(3) [OF assms, of r b] show ?thesis by simp
next
  case (SockWriteDone r)
  with loopInv_sockets(4) [OF assms, of r] show ?thesis by simp
next
  case (SockData r resp)
  with loopInv_sockets(5) [OF assms, of r resp] show ?thesis by simp
qed

lemma loopInv_run:
  assumes "loopInv s"
  shows "resultInv (run evs s)"
  using assms
proof (induction evs arbitrary: s)
  case Nil
  then show ?case by simp
next
  case (Cons e evs)
  show ?case
  proof (cases "fire e s")
    case (Inl x)
    with loopInv_fire [OF Cons.prems, of e] show ?thesis by simp
  next
    case (Inr s')
    with loopInv_fire [OF Cons.prems, of e] have "loopInv s'" by simp
    with Cons.IH Inr show ?thesis by simp
  qed
qed

subsection \<open>The flush loop under a cooperative environment\<close>





subsection \<open>The stalled flush loop\<close>

lemma stalled_frame:
  "socket s' = socket s \<Longrightarrow> oldSockets s' = oldSockets s \<Longrightarrow> ticks s' = ticks s \<Longrightarrow>
   flushingSendQueue s' = flushingSendQueue s \<Longrightarrow> eventEmitter s' = eventEmitter s \<Longrightarrow>
   stalled s' = stalled s"
  by (simp add: stalled_def writesPending_def allSockets_def flushTasks_def)

lemma stalled_handleEvent:
  assumes "stalled s"
  shows "stalled (dispatch signal d cb s)"
proof -
  have "Supervisor \<notin> set (listenersOf signal s)"
    using assms listenersOf_subset by (auto simp: stalled_def)
  then have "stalled (dispatch signal d cb s) = stalled s"
    by (intro stalled_frame) (simp_all add: dispatch_fields dispatch_quiet)
  with assms show ?thesis by simp
qed

lemma stalled_connect:
  assumes "stalled s"
  shows "stalled (connect k s)"
proof (cases "socket s")
  case None
  with assms show ?thesis
    by (simp add: connect_def stalled_def writesPending_def allSockets_def)
next
  case (Some sk)
  with assms show ?thesis
    by (simp add: connect_def dropSocket_def nextTick_def stalled_def writesPending_def
        allSockets_def flushTasks_def)
qed

lemma stalled_runKont:
  assumes "stalled s"
  shows "stalled (runKont k s)"
proof (cases k)
  case K_flush
  with assms show ?thesis by (simp add: flushSendQueue_def stalled_def)
next
  case K_reconnected
  have "stalled (s\<lparr>trace := trace s @ [LogInfo ''Fluentd reconnection finished!!'']\<rparr>) = stalled s"
    by (rule stalled_frame) simp_all
  with assms K_reconnected show ?thesis by simp
qed

lemma stalled_no_write:
  assumes "stalled s" and "getSock r s = Some sk"
  shows "writeCallbacks sk = []"
proof -
  have "sk \<in> set (allSockets s)"
    using assms(2) by (cases r) (auto simp: allSockets_def split: if_splits)
  moreover have "\<forall>x \<in> set (allSockets s). length (writeCallbacks x) = 0"
    using assms(1) by (simp add: stalled_def writesPending_def)
  ultimately show ?thesis by simp
qed

lemma stalled_putSock:
  assumes "stalled s" and "getSock r s = Some sk" and "writeCallbacks sk' = writeCallbacks sk"
  shows "stalled (putSock r sk' s)"
proof (cases r)
  case Cur
  with assms show ?thesis by (simp add: stalled_def writesPending_def allSockets_def)
next
  case (Old j)
  with assms(2) have j: "j < length (oldSockets s)" "oldSockets s ! j = sk"
    by (auto split: if_splits)
  have "map (\<lambda>sk. length (writeCallbacks sk)) ((oldSockets s)[j := sk'])
        = map (\<lambda>sk. length (writeCallbacks sk)) (oldSockets s)"
    using j assms(3) by (intro concat_map_update_same) simp_all
  with Old assms(1) show ?thesis by (simp add: stalled_def writesPending_def allSockets_def)
qed

lemma stalled_emit:
  assumes "stalled s"
  shows "stalled (stateOf (emit args now rnd s)) \<and>
         written (stateOf (emit args now rnd s)) = written s \<and>
         prefix (sendQueue s) (sendQueue (stateOf (emit args now rnd s)))"
proof -
  let ?a = "parseArgs args"
  show ?thesis
  proof (cases "makePacketItem s (a_label ?a) (a_data ?a) (a_timestamp ?a) now rnd")
    case (Inl e)
    with assms show ?thesis by (simp add: emit_def Let_def)
  next
    case (Inr it)
    let ?x = "it\<lparr>callback := a_callback ?a\<rparr>"
    let ?s1 = "s\<lparr>sendQueue := sendQueue s @ [?x], accepted := accepted s @ [?x]\<rparr>"
    have "stalled ?s1 = stalled s" by (rule stalled_frame) simp_all
    with assms have c: "stalled (connect K_flush ?s1)" by (simp add: stalled_connect)
    have "written (connect K_flush ?s1) = written s"
      "sendQueue (connect K_flush ?s1) = sendQueue s @ [?x]"
      by (simp_all add: connect_def dropSocket_def nextTick_def split: option.splits)
    with c Inr assms show ?thesis
      by (simp add: emit_def Let_def stalled_handleEvent dispatch_fields)
  qed
qed

lemma stalled_tick:
  assumes "stalled s"
  shows "stalled (stateOf (fire Tick s)) \<and> written (stateOf (fire Tick s)) = written s \<and>
         sendQueue (stateOf (fire Tick s)) = sendQueue s"
proof (cases "ticks s")
  case Nil
  with assms show ?thesis by simp
next
  case (Cons t ts)
  with assms have nf: "t \<noteq> T_flushCheck" "t \<noteq> T_doFlush" "flushTasks (s\<lparr>ticks := ts\<rparr>) = 0"
    by (auto simp: stalled_def flushTasks_def split: if_splits)
  with assms have st: "stalled (s\<lparr>ticks := ts\<rparr>)"
    by (simp add: stalled_def writesPending_def allSockets_def)
  show ?thesis
  proof (cases t)
    case (T_connect k)
    with Cons st stalled_connect [OF st, of k] show ?thesis
      by (simp add: connect_def dropSocket_def nextTick_def split: option.splits)
  next
    case (T_call k)
    with Cons st stalled_runKont [OF st, of k] show ?thesis
      by (cases k) (simp_all add: flushSendQueue_def nextTick_def)
  next
    case T_flushCheck
    with nf show ?thesis by simp
  next
    case T_doFlush
    with nf show ?thesis by simp
  qed
qed

lemma stalled_timer:
  assumes "stalled s"
  shows "stalled (stateOf (fire (TimerFire t) s)) \<and>
         written (stateOf (fire (TimerFire t) s)) = written s \<and>
         sendQueue (stateOf (fire (TimerFire t) s)) = sendQueue s"
proof (cases "map_of (timers s) t")
  case None
  with assms show ?thesis by simp
next
  case (Some e)
  obtain tm d where e: "e = (tm, d)" by (cases e)
  have "stalled (clearTimeout t s) = stalled s"
    by (rule stalled_frame) (simp_all add: clearTimeout_def)
  with assms have c: "stalled (clearTimeout t s)" by simp
  show ?thesis
  proof (cases tm)
    case (TO_ack it)
    with Some e c show ?thesis
      by (simp add: onAckTimeout_eq stalled_handleEvent dispatch_fields clearTimeout_fields)
  next
    case TO_reconnect
    let ?s1 = "(clearTimeout t s)\<lparr>trace := trace (clearTimeout t s) @ [LogInfo ''Fluentd is reconnecting...'']\<rparr>"
    have "stalled ?s1 = stalled (clearTimeout t s)" by (rule stalled_frame) simp_all
    with c have "stalled (connect K_reconnected ?s1)" by (simp add: stalled_connect)
    moreover have "written (connect K_reconnected ?s1) = written s"
      "sendQueue (connect K_reconnected ?s1) = sendQueue s"
      by (simp_all add: connect_def dropSocket_def nextTick_def clearTimeout_def split: option.splits)
    ultimately show ?thesis
      using Some e TO_reconnect by (simp add: onReconnectTimer_def)
  qed
qed

lemma stalled_sockets:
  assumes "stalled s"
  shows "stalled (stateOf (fire (SockConnect r) s)) \<and>
         written (stateOf (fire (SockConnect r) s)) = written s \<and>
         sendQueue (stateOf (fire (SockConnect r) s)) = sendQueue s"
    "stalled (stateOf (fire (SockError r e) s)) \<and>
         written (stateOf (fire (SockError r e) s)) = written s \<and>
         sendQueue (stateOf (fire (SockError r e) s)) = sendQueue s"
    "stalled (stateOf (fire (SockWritable r b) s)) \<and>
         written (stateOf (fire (SockWritable r b) s)) = written s \<and>
         sendQueue (stateOf (fire (SockWritable r b) s)) = sendQueue s"
    "fire (SockWriteDone r) s = Inr s"
proof -
  have c: "stalled (dispatch ''connect'' None None s)"
    using assms by (simp add: onSocketConnect_eq stalled_handleEvent)
  have cf: "written (dispatch ''connect'' None None s) = written s" "sendQueue (dispatch ''connect'' None None s) = sendQueue s"
    by (simp_all add: onSocketConnect_eq dispatch_fields)
  show "stalled (stateOf (fire (SockConnect r) s)) \<and>
         written (stateOf (fire (SockConnect r) s)) = written s \<and>
         sendQueue (stateOf (fire (SockConnect r) s)) = sendQueue s"
  proof (cases "getSock r s")
    case None
    with assms show ?thesis by simp
  next
    case (Some sk)
    have g: "getSock r (dispatch ''connect'' None None s) = Some sk"
      using Some by (cases r) (auto simp: onSocketConnect_eq dispatch_fields split: if_splits)
    show ?thesis
    proof (cases "connectListener sk")
      case None
      with Some c cf show ?thesis by simp
    next
      case (Some k)
      let ?s1 = "putSock r (sk\<lparr>connectListener := None\<rparr>) (dispatch ''connect'' None None s)"
      have p: "stalled ?s1" using c g by (rule stalled_putSock) simp
      then have "stalled (runKont k ?s1)" by (rule stalled_runKont)
      moreover have "runKont k ?s1 = ?s1 \<or> (\<exists>x. runKont k ?s1 = ?s1\<lparr>trace := x\<rparr>)"
        using p by (cases k) (auto simp: flushSendQueue_def stalled_def)
      then have "written (runKont k ?s1) = written s" "sendQueue (runKont k ?s1) = sendQueue s"
        using cf by (auto simp: putSock_fields)
      ultimately show ?thesis
        using Some \<open>getSock r s = Some sk\<close> by simp
    qed
  qed
  show "stalled (stateOf (fire (SockError r e) s)) \<and>
         written (stateOf (fire (SockError r e) s)) = written s \<and>
         sendQueue (stateOf (fire (SockError r e) s)) = sendQueue s"
  proof (cases "socket s")
    case None
    with assms show ?thesis by (simp add: onSocketError_eq split: option.splits)
  next
    case (Some sk)
    have "stalled (dropSocket sk s)"
      using assms Some
      by (simp add: dropSocket_def stalled_def writesPending_def allSockets_def)
    then have "stalled (dispatch ''error'' (Some (TransportError e)) None (dropSocket sk s))"
      by (rule stalled_handleEvent)
    with Some assms show ?thesis
      by (simp add: onSocketError_eq dispatch_fields dropSocket_fields split: option.splits)
  qed
  show "stalled (stateOf (fire (SockWritable r b) s)) \<and>
         written (stateOf (fire (SockWritable r b) s)) = written s \<and>
         sendQueue (stateOf (fire (SockWritable r b) s)) = sendQueue s"
  proof (cases "getSock r s")
    case None
    with assms show ?thesis by simp
  next
    case (Some sk)
    have "stalled (putSock r (sk\<lparr>writable := b\<rparr>) s)"
      using assms Some by (rule stalled_putSock) simp
    with Some show ?thesis by (simp add: putSock_fields)
  qed
  show "fire (SockWriteDone r) s = Inr s"
  proof (cases "getSock r s")
    case None
    then show ?thesis by simp
  next
    case (Some sk)
    with stalled_no_write [OF assms Some] show ?thesis by simp
  qed
qed

lemma stalled_listeners:
  assumes "stalled s"
  shows "stalled (addListener signal f s)" "stalled (removeListener signal f s)"
  using assms set_removeLast [of "(signal, UserListener f)" "eventEmitter s"]
  by (auto simp: stalled_def addListener_def removeListener_def writesPending_def allSockets_def)

lemma stalled_fire:
  assumes "stalled s" and "\<not> isData e"
  shows "stalled (stateOf (fire e s)) \<and> written (stateOf (fire e s)) = written s \<and>
         prefix (sendQueue s) (sendQueue (stateOf (fire e s)))"
proof (cases e)
  case (Emit args now rnd)
  with stalled_emit [OF assms(1), of args now rnd] show ?thesis by simp
next
  case (On signal f)
  with stalled_listeners(1) [OF assms(1), of signal f] show ?thesis
    by (simp add: addListener_def)
next
  case (RemoveListener signal f)
  with stalled_listeners(2) [OF assms(1), of signal f] show ?thesis
    by (simp add: removeListener_def)
next
  case Tick
  with stalled_tick [OF assms(1)] show ?thesis by simp
next
  case (SockConnect r)
  with stalled_sockets(1) [OF assms(1), of r] show ?thesis by simp
next
  case (SockError r x)
  with stalled_sockets(2) [OF assms(1), of r x] show ?thesis by simp
next
  case (SockData r resp)
  with assms(2) show ?thesis by simp
next
  case (SockWriteDone r)
  with stalled_sockets(4) [OF assms(1), of r] assms(1) show ?thesis by simp
next
  case (SockWritable r b)
  with stalled_sockets(3) [OF assms(1), of r b] show ?thesis by simp
next
  case (TimerFire t)
  with stalled_timer [OF assms(1), of t] show ?thesis by simp
qed

lemma stalled_run:
  assumes "stalled s" and "\<forall>e \<in> set evs. \<not> isData e"
  shows "stalled (stateOf (run evs s)) \<and> written (stateOf (run evs s)) = written s \<and>
         prefix (sendQueue s) (sendQueue (stateOf (run evs s)))"
  using assms
proof (induction evs arbitrary: s)
  case Nil
  then show ?case by simp
next
  case (Cons e evs)
  from Cons.prems have f: "stalled (stateOf (fire e s))" "written (stateOf (fire e s)) = written s"
    "prefix (sendQueue s) (sendQueue (stateOf (fire e s)))"
    using stalled_fire [of s e] by simp_all
  show ?case
  proof (cases "fire e s")
    case (Inl x)
    with f show ?thesis by simp
  next
    case (Inr s')
    with f have s': "stalled s'" "written s' = written s" "prefix (sendQueue s) (sendQueue s')"
      by simp_all
    from Cons.IH [OF s'(1)] Cons.prems(2)
    have "stalled (stateOf (run evs s'))" "written (stateOf (run evs s')) = written s'"
      "prefix (sendQueue s') (sendQueue (stateOf (run evs s')))"
      by simp_all
    with s' Inr show ?thesis by (auto intro: prefix_order.trans)
  qed
qed

lemma pending_split:
  "sum_list (map pending xs) =
     sum_list (map (\<lambda>sk. length (writeCallbacks sk)) xs) + length (concat (map dataListeners xs))"
  by (induction xs) (simp_all add: pending_def)

lemma inFlight_split:
  "inFlight s = writesPending s + length (concat (map dataListeners (allSockets s)))"
  by (simp add: inFlight_def writesPending_def pending_split)

lemma ackTimer_member:
  assumes "map_of (timers s) t = Some (TO_ack it, d)"
  shows "(it, t) \<in> set (ackTimers s)"
proof -
  from assms have "(t, TO_ack it, d) \<in> set (timers s)" by (rule map_of_SomeD)
  then show ?thesis by (force simp: ackTimers_def)
qed

lemma waiting_stalled:
  assumes "loopInv s" and "(it, t) \<in> set (ackTimers s)"
  shows "stalled s"
proof -
  from assms have "(it, t) \<in> set (concat (map dataListeners (allSockets s)))"
    by (auto simp: loopInv_def listening_def)
  then have pos: "0 < length (concat (map dataListeners (allSockets s)))"
    by (rule length_pos_if_in_set)
  have "0 < inFlight s" "inFlight s \<le> 1 \<longrightarrow> writesPending s = 0"
    using pos unfolding inFlight_split [of s] by arith+
  with assms(1) show ?thesis by (auto simp: loopInv_def stalled_def)
qed

text \<open>
  Claim C10. In a state reached by any run of a new sender, let the acknowledgment timer of an
  item be pending, and let it fire. Whatever happens afterwards, any calls of \<^verbatim>\<open>emit\<close> and
  any events of the runtime, as long as no \<^verbatim>\<open>data\<close> event arrives on a socket, nothing more
  is ever handed to \<^verbatim>\<open>socket.write\<close>: the written items stay what they were, the items that
  were queued stay at the head of the queue, the in-progress flag stays set (so every later
  \<^verbatim>\<open>_flushSendQueue\<close> returns at once) and no closure of the flush loop is scheduled. The
  timeout itself only reports \<^verbatim>\<open>ResponseTimeout\<close> to the item's callback. No supervisor
  can reset the flag here: the constructor installs none.
\<close>

theorem ack_timeout_stalls:
  assumes "run evs (FluentSender p opts) = Inr s"
    and "map_of (timers s) t = Some (TO_ack it, d)"
    and "\<forall>e \<in> set evs'. \<not> isData e"
  shows "written (stateOf (run (TimerFire t # evs') s)) = written s \<and>
         prefix (sendQueue s) (sendQueue (stateOf (run (TimerFire t # evs') s))) \<and>
         flushingSendQueue (stateOf (run (TimerFire t # evs') s)) \<and>
         flushTasks (stateOf (run (TimerFire t # evs') s)) = 0 \<and>
         (\<exists>rest. trace (stateOf (run [TimerFire t] s)) =
                   trace s @ callbackCall (callback it)
                               (Some (ResponseTimeout ''ack response timeout'')) @ rest)"
proof -
  have "loopInv s"
    using loopInv_run [OF loopInv_init, of evs p opts] assms(1) by simp
  then have st: "stalled s"
    using ackTimer_member [OF assms(2)] by (rule waiting_stalled)
  have "\<forall>e \<in> set (TimerFire t # evs'). \<not> isData e" using assms(3) by simp
  from stalled_run [OF st this]
  have a: "written (stateOf (run (TimerFire t # evs') s)) = written s"
    "prefix (sendQueue s) (sendQueue (stateOf (run (TimerFire t # evs') s)))"
    "stalled (stateOf (run (TimerFire t # evs') s))"
    by simp_all
  obtain rest where "trace (dispatch ''error'' (Some (ResponseTimeout ''ack response timeout''))
        (callback it) (clearTimeout t s)) =
      trace (clearTimeout t s) @ callbackCall (callback it)
        (Some (ResponseTimeout ''ack response timeout'')) @ rest"
    using dispatch_trace by blast
  then have "trace (stateOf (run [TimerFire t] s)) =
      trace s @ callbackCall (callback it) (Some (ResponseTimeout ''ack response timeout'')) @ rest"
    using assms(2) by (simp add: onAckTimeout_eq clearTimeout_def)
  with a show ?thesis by (auto simp: stalled_def)
qed

theorem ack_timeout_stalls_witness:
  "run [Emit [JStr ''a'', JObj [], JFun 1] 5000 ''r1'', Emit [JStr ''b'', JObj [], JFun 2] 5000 ''r2'',
        Tick, SockConnect Cur, Tick, SockWriteDone Cur]
     (FluentSender None (JObj [(''requireAckResponse'', JBool True)])) =
   Inr (stateOf (run [Emit [JStr ''a'', JObj [], JFun 1] 5000 ''r1'',
          Emit [JStr ''b'', JObj [], JFun 2] 5000 ''r2'', Tick, SockConnect Cur, Tick,
          SockWriteDone Cur]
        (FluentSender None (JObj [(''requireAckResponse'', JBool True)])))) \<and>
   map_of (timers (stateOf (run [Emit [JStr ''a'', JObj [], JFun 1] 5000 ''r1'',
          Emit [JStr ''b'', JObj [], JFun 2] 5000 ''r2'', Tick, SockConnect Cur, Tick,
          SockWriteDone Cur]
        (FluentSender None (JObj [(''requireAckResponse'', JBool True)]))))) 0 =
     Some (TO_ack \<lparr> packet = [JStr ''a'', JNum 5, JObj [], JObj [(''chunk'', JStr ''r1'')]],
                    tag = Some ''a'', time = JNum 5, data = JObj [],
                    options = JObj [(''chunk'', JStr ''r1'')], callback = Some 1 \<rparr>,
           JNum 190000) \<and>
   filter isData [Emit [JStr ''c'', JObj [], JFun 3] 5000 ''r3'', Tick, SockConnect Cur, Tick,
                  SockWriteDone Cur, SockError Cur 9,
                  Emit [JStr ''d'', JObj [], JFun 4] 5000 ''r4'', SockConnect Cur, Tick, Tick,
                  SockWriteDone Cur] = [] \<and>
   map tag (written (stateOf (run (TimerFire 0 #
       [Emit [JStr ''c'', JObj [], JFun 3] 5000 ''r3'', Tick, SockConnect Cur, Tick,
        SockWriteDone Cur, SockError Cur 9,
        Emit [JStr ''d'', JObj [], JFun 4] 5000 ''r4'', SockConnect Cur, Tick, Tick,
        SockWriteDone Cur])
     (stateOf (run [Emit [JStr ''a'', JObj [], JFun 1] 5000 ''r1'',
          Emit [JStr ''b'', JObj [], JFun 2] 5000 ''r2'', Tick, SockConnect Cur, Tick,
          SockWriteDone Cur]
        (FluentSender None (JObj [(''requireAckResponse'', JBool True)]))))))) = [Some ''a''] \<and>
   flushingSendQueue (stateOf (run (TimerFire 0 #
       [Emit [JStr ''c'', JObj [], JFun 3] 5000 ''r3'', Tick, SockConnect Cur, Tick,
        SockWriteDone Cur, SockError Cur 9,
        Emit [JStr ''d'', JObj [], JFun 4] 5000 ''r4'', SockConnect Cur, Tick, Tick,
        SockWriteDone Cur])
     (stateOf (run [Emit [JStr ''a'', JObj [], JFun 1] 5000 ''r1'',
          Emit [JStr ''b'', JObj [], JFun 2] 5000 ''r2'', Tick, SockConnect Cur, Tick,
          SockWriteDone Cur]
        (FluentSender None (JObj [(''requireAckResponse'', JBool True)]))))))"
proof -
  let ?evs = "[Emit [JStr ''a'', JObj [], JFun 1] 5000 ''r1'',
               Emit [JStr ''b'', JObj [], JFun 2] 5000 ''r2'', Tick, SockConnect Cur, Tick,
               SockWriteDone Cur]"
  let ?init = "FluentSender None (JObj [(''requireAckResponse'', JBool True)])"
  let ?S = "stateOf (run ?evs ?init)"
  let ?it = "\<lparr> packet = [JStr ''a'', JNum 5, JObj [], JObj [(''chunk'', JStr ''r1'')]],
               tag = Some ''a'', time = JNum 5, data = JObj [],
               options = JObj [(''chunk'', JStr ''r1'')], callback = Some 1 \<rparr>"
  let ?evs' = "[Emit [JStr ''c'', JObj [], JFun 3] 5000 ''r3'', Tick, SockConnect Cur, Tick,
                SockWriteDone Cur, SockError Cur 9,
                Emit [JStr ''d'', JObj [], JFun 4] 5000 ''r4'', SockConnect Cur, Tick, Tick,
                SockWriteDone Cur]"
  have r: "run ?evs ?init = Inr ?S" by code_simp
  have m: "map_of (timers ?S) 0 = Some (TO_ack ?it, JNum 190000)" by code_simp
  have n: "\<forall>e \<in> set ?evs'. \<not> isData e" by simp
  have f: "filter isData ?evs' = []" by simp
  have w: "map tag (written ?S) = [Some ''a'']" by code_simp
  from ack_timeout_stalls [OF r m n]
  have "written (stateOf (run (TimerFire 0 # ?evs') ?S)) = written ?S"
    "flushingSendQueue (stateOf (run (TimerFire 0 # ?evs') ?S))"
    by simp_all
  with w have c: "map tag (written (stateOf (run (TimerFire 0 # ?evs') ?S))) = [Some ''a'']"
    "flushingSendQueue (stateOf (run (TimerFire 0 # ?evs') ?S))"
    by simp_all
  from r m f c show ?thesis by (intro conjI)
qed

subsection \<open>Submissions before the connection\<close>












subsection \<open>The order of the queue on any sender\<close>

















end
